theory Spec2Isabelle
  imports Main
begin

section \<open>Two-dimensional arrays with an explicit memory layout\<close>

text \<open>
  The notebook works on numpy arrays. An array has a shape \<open>(m, n)\<close>, a storage order
  (row-major, numpy's default, or column-major, what \<^verbatim>\<open>np.asfortranarray\<close> and
  \<^verbatim>\<open>order='F'\<close> give) and one flat buffer of \<open>m * n\<close> elements. The element
  type is a parameter: the kernel only ever multiplies two elements, so the theorems hold
  for every type with a multiplication, whatever its rounding.
\<close>

datatype mem_order = RowMajor | ColMajor

record 'a ndarray =
  nrows :: nat
  ncols :: nat
  layout :: mem_order
  buf :: "'a list"

text \<open>The position of element \<open>[k, j]\<close> in the flat buffer.\<close>

definition offset :: "'a ndarray \<Rightarrow> nat \<Rightarrow> nat \<Rightarrow> nat" where
  "offset a k j =
     (case layout a of RowMajor \<Rightarrow> k * ncols a + j | ColMajor \<Rightarrow> j * nrows a + k)"

text \<open>Every numpy array owns a buffer of exactly \<open>m * n\<close> elements.\<close>

definition wf_array :: "'a ndarray \<Rightarrow> bool" where
  "wf_array a = (length (buf a) = nrows a * ncols a)"

text \<open>
  \<^verbatim>\<open>@jit(nopython=True)\<close> compiles the kernel without bounds checks: an index outside the
  shape is undefined behaviour there. The model makes every such access the value
  \<open>Inl OutOfBounds\<close>, so that "the run returns \<open>Inr\<close>" says that every index the
  run used was inside the shape of the array it indexed.
\<close>

datatype fault = OutOfBounds

definition getitem :: "'a ndarray \<Rightarrow> nat \<Rightarrow> nat \<Rightarrow> fault + 'a" where
  "getitem a k j =
     (if k < nrows a \<and> j < ncols a then Inr (buf a ! offset a k j) else Inl OutOfBounds)"

definition setitem :: "'a ndarray \<Rightarrow> nat \<Rightarrow> nat \<Rightarrow> 'a \<Rightarrow> fault + 'a ndarray" where
  "setitem a k j v =
     (if k < nrows a \<and> j < ncols a then Inr (a\<lparr>buf := (buf a)[offset a k j := v]\<rparr>)
      else Inl OutOfBounds)"

text \<open>
  Arrays are objects that the kernel reaches through references: \<open>x\<close> and \<open>res\<close> are two
  references, and nothing in the kernel stops a caller from passing the same object twice.
  The store maps a reference to the array it denotes. In this store every array owns its
  buffer: it describes the calls of the notebook, where \<open>trn\<close> and \<open>trn_feat\<close> are
  separately allocated. Two numpy arrays can also be views of the same memory; the section
  on shared memory below models the kernel for that case, and \<open>vec_poly_sim\<close> shows that
  the two models agree whenever \<open>x\<close> and \<open>res\<close> share no memory.
\<close>

type_synonym 'a heap = "nat \<Rightarrow> 'a ndarray"

section \<open>The kernel \<^verbatim>\<open>vec_poly\<close>\<close>

text \<open>
  \<^verbatim>\<open>
  @jit(nopython=True)
  def vec_poly(x, res):
      m,n=x.shape
      feat_idx=0
      for i in range(n):
          v1=x[:,i]
          for k in range(m): res[k,feat_idx] = v1[k]
          feat_idx+=1
          for j in range(i,n):
              for k in range(m): res[k,feat_idx] = v1[k]*x[k,j]
              feat_idx+=1
  \<close>
  \<open>v1 = x[:,i]\<close> is a view, not a copy: \<open>v1[k]\<close> reads \<open>x[k,i]\<close> from the array as it is
  at the time of the read.
\<close>

text \<open>The right-hand side \<open>v1[k]\<close>.\<close>

definition rhs_copy :: "nat \<Rightarrow> 'a ndarray \<Rightarrow> nat \<Rightarrow> fault + 'a" where
  "rhs_copy i x k = getitem x k i"

text \<open>The right-hand side \<open>v1[k]*x[k,j]\<close>: two reads, left to right, and one product.\<close>

definition rhs_prod :: "nat \<Rightarrow> nat \<Rightarrow> 'a::times ndarray \<Rightarrow> nat \<Rightarrow> fault + 'a" where
  "rhs_prod i j x k =
     (case getitem x k i of Inl e \<Rightarrow> Inl e
      | Inr a \<Rightarrow> (case getitem x k j of Inl e \<Rightarrow> Inl e | Inr b \<Rightarrow> Inr (a * b)))"

text \<open>
  The innermost loop \<^verbatim>\<open>for k in range(m): res[k,feat_idx] = rhs\<close>, over the row
  indices \<open>ks\<close> still to come. Each round evaluates the right-hand side on the current
  \<open>x\<close>, then stores into the current \<open>res\<close>.
\<close>

primrec fill_col ::
  "nat \<Rightarrow> nat \<Rightarrow> ('a ndarray \<Rightarrow> nat \<Rightarrow> fault + 'a) \<Rightarrow> nat \<Rightarrow> nat list \<Rightarrow> 'a heap \<Rightarrow> fault + 'a heap"
where
  "fill_col x res rhs feat_idx [] h = Inr h"
| "fill_col x res rhs feat_idx (k # ks) h =
     (case rhs (h x) k of Inl e \<Rightarrow> Inl e
      | Inr v \<Rightarrow>
          (case setitem (h res) k feat_idx v of Inl e \<Rightarrow> Inl e
           | Inr r \<Rightarrow> fill_col x res rhs feat_idx ks (h(res := r))))"

text \<open>
  The loop \<^verbatim>\<open>for j in range(i,n)\<close>, over the indices \<open>js\<close> still to come; the state is
  the store and the running \<open>feat_idx\<close>.
\<close>

primrec pair_loop ::
  "nat \<Rightarrow> nat \<Rightarrow> nat \<Rightarrow> nat \<Rightarrow> nat list \<Rightarrow> 'a::times heap \<times> nat \<Rightarrow> fault + 'a heap \<times> nat"
where
  "pair_loop x res m i [] s = Inr s"
| "pair_loop x res m i (j # js) s =
     (case fill_col x res (rhs_prod i j) (snd s) [0..<m] (fst s) of Inl e \<Rightarrow> Inl e
      | Inr h' \<Rightarrow> pair_loop x res m i js (h', snd s + 1))"

text \<open>The loop \<^verbatim>\<open>for i in range(n)\<close>, over the indices \<open>is\<close> still to come.\<close>

primrec var_loop ::
  "nat \<Rightarrow> nat \<Rightarrow> nat \<Rightarrow> nat \<Rightarrow> nat list \<Rightarrow> 'a::times heap \<times> nat \<Rightarrow> fault + 'a heap \<times> nat"
where
  "var_loop x res m n [] s = Inr s"
| "var_loop x res m n (i # is) s =
     (case fill_col x res (rhs_copy i) (snd s) [0..<m] (fst s) of Inl e \<Rightarrow> Inl e
      | Inr h1 \<Rightarrow>
          (case pair_loop x res m i [i..<n] (h1, snd s + 1) of Inl e \<Rightarrow> Inl e
           | Inr s2 \<Rightarrow> var_loop x res m n is s2))"

text \<open>
  The whole body, with the final value of the local \<open>feat_idx\<close> kept beside the store.
\<close>

definition vec_poly_run :: "nat \<Rightarrow> nat \<Rightarrow> 'a::times heap \<Rightarrow> fault + 'a heap \<times> nat" where
  "vec_poly_run x res h =
     (let m = nrows (h x); n = ncols (h x) in var_loop x res m n [0..<n] (h, 0))"

text \<open>The kernel returns nothing; its effect is the store it leaves.\<close>

definition vec_poly :: "nat \<Rightarrow> nat \<Rightarrow> 'a::times heap \<Rightarrow> fault + 'a heap" where
  "vec_poly x res h =
     (case vec_poly_run x res h of Inl e \<Rightarrow> Inl e | Inr s \<Rightarrow> Inr (fst s))"

section \<open>The kernel on shared memory\<close>

text \<open>
  A numpy array is a view: a shape and two strides over a memory of elements that other
  arrays may share. \<^verbatim>\<open>big[:, :2]\<close> is the view of the first two columns of \<open>big\<close>, with
  the strides and the first cell of \<open>big\<close>; a write to \<open>big[k, 1]\<close> is a write to its
  element \<open>[k, 1]\<close>. Memory is a map from cell numbers to elements, and strides count
  elements.
\<close>

type_synonym 'a memory = "nat \<Rightarrow> 'a"

record view =
  first_cell :: nat
  vrows :: nat
  vcols :: nat
  row_stride :: nat
  col_stride :: nat

text \<open>The memory cell of element \<open>[k, j]\<close>, and all cells of a view, row after row.\<close>

definition cell :: "view \<Rightarrow> nat \<Rightarrow> nat \<Rightarrow> nat" where
  "cell v k j = first_cell v + k * row_stride v + j * col_stride v"

definition cells :: "view \<Rightarrow> nat list" where
  "cells v = concat (map (\<lambda>k. map (cell v k) [0..<vcols v]) [0..<vrows v])"

text \<open>
  Reads and writes through a view. As for the store, an index outside the shape is the
  fault \<open>OutOfBounds\<close>.
\<close>

definition load :: "'a memory \<Rightarrow> view \<Rightarrow> nat \<Rightarrow> nat \<Rightarrow> fault + 'a" where
  "load mem v k j =
     (if k < vrows v \<and> j < vcols v then Inr (mem (cell v k j)) else Inl OutOfBounds)"

definition store :: "'a memory \<Rightarrow> view \<Rightarrow> nat \<Rightarrow> nat \<Rightarrow> 'a \<Rightarrow> fault + 'a memory" where
  "store mem v k j a =
     (if k < vrows v \<and> j < vcols v then Inr (mem(cell v k j := a)) else Inl OutOfBounds)"

text \<open>
  The kernel again, loop for loop as above, with \<open>x\<close> and \<open>res\<close> two views and the memory
  in place of the store: \<open>v1[k]\<close>, \<open>v1[k]*x[k,j]\<close>, the loop over \<open>k\<close>, the loop over \<open>j\<close>,
  the loop over \<open>i\<close>, and the whole body.
\<close>

definition rhs_copy_mem :: "view \<Rightarrow> nat \<Rightarrow> 'a memory \<Rightarrow> nat \<Rightarrow> fault + 'a" where
  "rhs_copy_mem x i mem k = load mem x k i"

definition rhs_prod_mem :: "view \<Rightarrow> nat \<Rightarrow> nat \<Rightarrow> 'a::times memory \<Rightarrow> nat \<Rightarrow> fault + 'a" where
  "rhs_prod_mem x i j mem k =
     (case load mem x k i of Inl e \<Rightarrow> Inl e
      | Inr a \<Rightarrow> (case load mem x k j of Inl e \<Rightarrow> Inl e | Inr b \<Rightarrow> Inr (a * b)))"

primrec fill_col_mem ::
  "view \<Rightarrow> ('a memory \<Rightarrow> nat \<Rightarrow> fault + 'a) \<Rightarrow> nat \<Rightarrow> nat list \<Rightarrow> 'a memory \<Rightarrow> fault + 'a memory"
where
  "fill_col_mem res rhs feat_idx [] mem = Inr mem"
| "fill_col_mem res rhs feat_idx (k # ks) mem =
     (case rhs mem k of Inl e \<Rightarrow> Inl e
      | Inr v \<Rightarrow>
          (case store mem res k feat_idx v of Inl e \<Rightarrow> Inl e
           | Inr mem' \<Rightarrow> fill_col_mem res rhs feat_idx ks mem'))"

primrec pair_loop_mem ::
  "view \<Rightarrow> view \<Rightarrow> nat \<Rightarrow> nat \<Rightarrow> nat list \<Rightarrow> 'a::times memory \<times> nat \<Rightarrow> fault + 'a memory \<times> nat"
where
  "pair_loop_mem x res m i [] s = Inr s"
| "pair_loop_mem x res m i (j # js) s =
     (case fill_col_mem res (rhs_prod_mem x i j) (snd s) [0..<m] (fst s) of Inl e \<Rightarrow> Inl e
      | Inr mem' \<Rightarrow> pair_loop_mem x res m i js (mem', snd s + 1))"

primrec var_loop_mem ::
  "view \<Rightarrow> view \<Rightarrow> nat \<Rightarrow> nat \<Rightarrow> nat list \<Rightarrow> 'a::times memory \<times> nat \<Rightarrow> fault + 'a memory \<times> nat"
where
  "var_loop_mem x res m n [] s = Inr s"
| "var_loop_mem x res m n (i # is) s =
     (case fill_col_mem res (rhs_copy_mem x i) (snd s) [0..<m] (fst s) of Inl e \<Rightarrow> Inl e
      | Inr mem1 \<Rightarrow>
          (case pair_loop_mem x res m i [i..<n] (mem1, snd s + 1) of Inl e \<Rightarrow> Inl e
           | Inr s2 \<Rightarrow> var_loop_mem x res m n is s2))"

definition vec_poly_mem_run :: "view \<Rightarrow> view \<Rightarrow> 'a::times memory \<Rightarrow> fault + 'a memory \<times> nat" where
  "vec_poly_mem_run x res mem =
     (let m = vrows x; n = vcols x in var_loop_mem x res m n [0..<n] (mem, 0))"

definition vec_poly_mem :: "view \<Rightarrow> view \<Rightarrow> 'a::times memory \<Rightarrow> fault + 'a memory" where
  "vec_poly_mem x res mem =
     (case vec_poly_mem_run x res mem of Inl e \<Rightarrow> Inl e | Inr s \<Rightarrow> Inr (fst s))"

text \<open>Reading a view back as nested lists, before and after a call.\<close>

definition view_tolist :: "'a memory \<Rightarrow> view \<Rightarrow> 'a list list" where
  "view_tolist mem v = map (\<lambda>k. map (\<lambda>j. mem (cell v k j)) [0..<vcols v]) [0..<vrows v]"

definition vec_poly_mem_tolist ::
  "view \<Rightarrow> view \<Rightarrow> 'a::times memory \<Rightarrow> view \<Rightarrow> fault + 'a list list" where
  "vec_poly_mem_tolist x res mem v =
     (case vec_poly_mem x res mem of Inl e \<Rightarrow> Inl e | Inr mem' \<Rightarrow> Inr (view_tolist mem' v))"

section \<open>The cells that call the kernel\<close>

text \<open>
  \<^verbatim>\<open>
  trn = np.asfortranarray(trn)

  m,n=trn.shape
  n_feat = n*(n+1)//2 + n
  trn_feat = np.zeros((m,n_feat), order='F')

  vec_poly(trn, trn_feat)
  \<close>
\<close>

definition n_feat :: "nat \<Rightarrow> nat" where
  "n_feat n = n * (n + 1) div 2 + n"

definition zeros :: "nat \<Rightarrow> nat \<Rightarrow> mem_order \<Rightarrow> 'a::zero ndarray" where
  "zeros m n ord = \<lparr>nrows = m, ncols = n, layout = ord, buf = replicate (m * n) 0\<rparr>"

text \<open>
  \<^verbatim>\<open>np.asfortranarray\<close> returns its argument when it is column-major already, and
  otherwise a column-major array of the same shape holding the same element at every index.
\<close>

definition asfortranarray :: "'a ndarray \<Rightarrow> 'a ndarray" where
  "asfortranarray a =
     (if layout a = ColMajor then a
      else \<lparr>nrows = nrows a, ncols = ncols a, layout = ColMajor,
            buf = concat (map (\<lambda>j. map (\<lambda>k. buf a ! offset a k j) [0..<nrows a])
                              [0..<ncols a])\<rparr>)"

text \<open>
  One call \<^verbatim>\<open>vec_poly(trn, trn_feat)\<close> on two separate objects, as a function from
  the two arrays to the destination as the call leaves it: \<open>trn\<close> is reference 0 of a
  store and \<open>trn_feat\<close> reference 1.
\<close>

definition vec_poly_on :: "'a::times ndarray \<Rightarrow> 'a ndarray \<Rightarrow> fault + 'a ndarray" where
  "vec_poly_on trn trn_feat =
     (case vec_poly 0 1 ((\<lambda>_. trn_feat)(0 := trn)) of Inl e \<Rightarrow> Inl e
      | Inr h' \<Rightarrow> Inr (h' 1))"

text \<open>The allocation of the destination and the call together.\<close>

definition expand :: "'a::{zero,times} ndarray \<Rightarrow> fault + 'a ndarray" where
  "expand trn =
     (let m = nrows trn; n = ncols trn in vec_poly_on trn (zeros m (n_feat n) ColMajor))"

text \<open>Reading an array back: one column as a list, and all rows as nested lists.\<close>

definition column :: "'a ndarray \<Rightarrow> nat \<Rightarrow> 'a list" where
  "column a c = map (\<lambda>k. buf a ! offset a k c) [0..<nrows a]"

definition tolist :: "'a ndarray \<Rightarrow> 'a list list" where
  "tolist a = map (\<lambda>k. map (\<lambda>c. buf a ! offset a k c) [0..<ncols a]) [0..<nrows a]"

text \<open>The same, for a result that may be a fault.\<close>

definition expand_column :: "'a::{zero,times} ndarray \<Rightarrow> nat \<Rightarrow> fault + 'a list" where
  "expand_column trn c = (case expand trn of Inl e \<Rightarrow> Inl e | Inr r \<Rightarrow> Inr (column r c))"

definition expand_list :: "'a::{zero,times} ndarray \<Rightarrow> fault + 'a list list" where
  "expand_list trn = (case expand trn of Inl e \<Rightarrow> Inl e | Inr r \<Rightarrow> Inr (tolist r))"

section \<open>The column ordering, as the specification words it\<close>

text \<open>The element at an index, read straight from the buffer.\<close>

definition at :: "'a ndarray \<Rightarrow> nat \<Rightarrow> nat \<Rightarrow> 'a" where
  "at a k j = buf a ! offset a k j"

text \<open>
  What an output column holds: input column \<open>i\<close> itself, or the elementwise product of
  input columns \<open>i\<close> and \<open>j\<close>.
\<close>

datatype feature = Linear nat | Product nat nat

fun feature_val :: "'a::times ndarray \<Rightarrow> nat \<Rightarrow> feature \<Rightarrow> 'a" where
  "feature_val x k (Linear i) = at x k i"
| "feature_val x k (Product i j) = at x k i * at x k j"

text \<open>
  "For \<open>i\<close> from \<open>0\<close> to \<open>n-1\<close>, emit column \<open>i\<close> itself, then for \<open>j\<close> from \<open>i\<close> to
  \<open>n-1\<close>, emit \<open>x_i * x_j\<close>": the columns of round \<open>i\<close>, and all rounds one after another.
\<close>

definition block :: "nat \<Rightarrow> nat \<Rightarrow> feature list" where
  "block n i = Linear i # map (Product i) [i..<n]"

definition column_order :: "nat \<Rightarrow> feature list" where
  "column_order n = concat (map (block n) [0..<n])"

text \<open>
  The value of \<open>feat_idx\<close> when round \<open>i\<close> of the outer loop begins: every earlier round
  \<open>i'\<close> advanced it once for the copy and once for each \<open>j\<close> in \<open>range(i', n)\<close>. The
  product of columns \<open>i \<le> j\<close> is written \<open>1 + (j - i)\<close> columns further on.
\<close>

primrec first_col :: "nat \<Rightarrow> nat \<Rightarrow> nat" where
  "first_col n 0 = 0"
| "first_col n (Suc i) = first_col n i + 1 + (n - i)"

definition pair_col :: "nat \<Rightarrow> nat \<Rightarrow> nat \<Rightarrow> nat" where
  "pair_col n i j = first_col n i + 1 + (j - i)"

section \<open>Auxiliary notions of the proofs\<close>

definition same_frame :: "'a ndarray \<Rightarrow> 'a ndarray \<Rightarrow> bool" where
  "same_frame a b = (nrows b = nrows a \<and> ncols b = ncols a \<and> layout b = layout a)"

text \<open>
  \<open>emits x res h c0 fs s\<close>: from the store \<open>h\<close> and the counter \<open>c0\<close>, a piece of the
  kernel has reached the state \<open>s\<close> by writing the features \<open>fs\<close> into the columns
  \<open>c0, c0 + 1, \<dots>\<close> of \<open>res\<close>, rows \<open>0..m-1\<close>, and nothing else anywhere.
\<close>

definition emits ::
  "nat \<Rightarrow> nat \<Rightarrow> 'a::times heap \<Rightarrow> nat \<Rightarrow> feature list \<Rightarrow> 'a heap \<times> nat \<Rightarrow> bool" where
  "emits x res h c0 fs s =
     (snd s = c0 + length fs \<and> (\<forall>a. a \<noteq> res \<longrightarrow> fst s a = h a) \<and>
      same_frame (h res) (fst s res) \<and> wf_array (fst s res) \<and>
      (\<forall>k<nrows (h res). \<forall>c<ncols (h res).
          at (fst s res) k c =
            (if k < nrows (h x) \<and> c0 \<le> c \<and> c < c0 + length fs
             then feature_val (h x) k (fs ! (c - c0)) else at (h res) k c)))"

definition feature_ok :: "nat \<Rightarrow> feature \<Rightarrow> bool" where
  "feature_ok n f = (case f of Linear i \<Rightarrow> i < n | Product i j \<Rightarrow> i < n \<and> j < n)"

text \<open>
  The link between the two models: a view over a memory represents an array of the store
  when it has the array's shape and holds the array's element at every index; a view is
  injective when distinct indices are distinct cells.
\<close>

definition represents :: "'a memory \<Rightarrow> view \<Rightarrow> 'a ndarray \<Rightarrow> bool" where
  "represents mem v a =
     (vrows v = nrows a \<and> vcols v = ncols a \<and>
      (\<forall>k<nrows a. \<forall>j<ncols a. mem (cell v k j) = at a k j))"

definition inj_view :: "view \<Rightarrow> bool" where
  "inj_view v =
     (\<forall>k<vrows v. \<forall>j<vcols v. \<forall>k'<vrows v. \<forall>j'<vcols v.
        cell v k j = cell v k' j' \<longrightarrow> k = k' \<and> j = j')"

definition sim :: "view \<Rightarrow> view \<Rightarrow> nat \<Rightarrow> nat \<Rightarrow> 'a memory \<Rightarrow> 'a heap \<Rightarrow> bool" where
  "sim vx vr xr rr mem h =
     (represents mem vx (h xr) \<and> represents mem vr (h rr) \<and> wf_array (h rr))"

definition sim_state ::
  "view \<Rightarrow> view \<Rightarrow> nat \<Rightarrow> nat \<Rightarrow> 'a memory \<times> nat \<Rightarrow> 'a heap \<times> nat \<Rightarrow> bool" where
  "sim_state vx vr xr rr s t = (snd s = snd t \<and> sim vx vr xr rr (fst s) (fst t))"

section \<open>Concrete arrays\<close>

text \<open>
  \<^verbatim>\<open>[[1,2],[3,4]]\<close> row-major and column-major, an array with no rows, an array with no
  columns, and a store holding the first with a zeroed destination of shape \<open>(2, 5)\<close>.
  The elements are integers: the values \<open>1, 2, 3, 4\<close> and their pairwise products are
  exact in every numeric type the notebook could use.
\<close>

definition ex_x :: "int ndarray" where
  "ex_x = \<lparr>nrows = 2, ncols = 2, layout = RowMajor, buf = [1, 2, 3, 4]\<rparr>"

definition ex_x_colmajor :: "int ndarray" where
  "ex_x_colmajor = \<lparr>nrows = 2, ncols = 2, layout = ColMajor, buf = [1, 3, 2, 4]\<rparr>"

definition ex_no_rows :: "int ndarray" where
  "ex_no_rows = \<lparr>nrows = 0, ncols = 3, layout = RowMajor, buf = []\<rparr>"

definition ex_no_cols :: "int ndarray" where
  "ex_no_cols = \<lparr>nrows = 3, ncols = 0, layout = RowMajor, buf = []\<rparr>"

definition ex_heap :: "int heap" where
  "ex_heap = (\<lambda>_. zeros 2 5 ColMajor)(0 := ex_x)"

text \<open>
  A destination of the right shape \<open>(2, 5)\<close> that holds other values before the call, and
  a store whose destination has the shape \<open>(3, 6)\<close>, one row and one column too many.
\<close>

definition ex_dirty :: "int ndarray" where
  "ex_dirty = \<lparr>nrows = 2, ncols = 5, layout = ColMajor, buf = [7, 7, 7, 7, 7, 7, 7, 7, 7, 7]\<rparr>"

definition ex_heap_wide :: "int heap" where
  "ex_heap_wide = (\<lambda>_. zeros 3 6 ColMajor)(0 := ex_x)"

text \<open>
  A memory of ten cells holding \<^verbatim>\<open>big = [[1,2,0,0,0],[3,4,0,0,0]]\<close> row-major, with
  \<open>res = big\<close> and \<open>x = big[:, :2]\<close>; and a memory where \<^verbatim>\<open>[[1,2],[3,4]]\<close> occupies
  cells 0 to 3 and a column-major destination of shape \<open>(2, 5)\<close> cells 4 to 13.
\<close>

definition ex_big :: view where
  "ex_big = \<lparr>first_cell = 0, vrows = 2, vcols = 5, row_stride = 5, col_stride = 1\<rparr>"

definition ex_big_left :: view where
  "ex_big_left = \<lparr>first_cell = 0, vrows = 2, vcols = 2, row_stride = 5, col_stride = 1\<rparr>"

definition ex_big_memory :: "int memory" where
  "ex_big_memory p = (if p < 10 then [1, 2, 0, 0, 0, 3, 4, 0, 0, 0] ! p else 0)"

definition ex_x_view :: view where
  "ex_x_view = \<lparr>first_cell = 0, vrows = 2, vcols = 2, row_stride = 2, col_stride = 1\<rparr>"

definition ex_res_view :: view where
  "ex_res_view = \<lparr>first_cell = 4, vrows = 2, vcols = 5, row_stride = 1, col_stride = 2\<rparr>"

definition ex_memory :: "int memory" where
  "ex_memory p = (if p < 4 then [1, 2, 3, 4] ! p else 0)"

section \<open>Arrays: offsets, reads and writes\<close>

lemma offset_less:
  assumes "wf_array a" "k < nrows a" "j < ncols a"
  shows "offset a k j < length (buf a)"
proof (cases "layout a")
  case RowMajor
  have "k * ncols a + j < Suc k * ncols a" using assms(3) by simp
  also have "\<dots> \<le> nrows a * ncols a" using assms(2) by (intro mult_le_mono1) simp
  finally show ?thesis using assms(1) RowMajor by (simp add: offset_def wf_array_def)
next
  case ColMajor
  have "j * nrows a + k < Suc j * nrows a" using assms(2) by simp
  also have "\<dots> \<le> ncols a * nrows a" using assms(3) by (intro mult_le_mono1) simp
  finally show ?thesis using assms(1) ColMajor by (simp add: offset_def wf_array_def mult.commute)
qed

lemma offset_inj:
  assumes "k < nrows a" "j < ncols a" "k' < nrows a" "j' < ncols a"
    and "offset a k j = offset a k' j'"
  shows "k = k' \<and> j = j'"
proof (cases "layout a")
  case RowMajor
  with assms(5) have e: "k * ncols a + j = k' * ncols a + j'" by (simp add: offset_def)
  from e have "(k * ncols a + j) div ncols a = (k' * ncols a + j') div ncols a" by simp
  with assms(2,4) have "k = k'" by simp
  with e show ?thesis by simp
next
  case ColMajor
  with assms(5) have e: "j * nrows a + k = j' * nrows a + k'" by (simp add: offset_def)
  from e have "(j * nrows a + k) div nrows a = (j' * nrows a + k') div nrows a" by simp
  with assms(1,3) have "j = j'" by simp
  with e show ?thesis by simp
qed

lemma setitem_ok:
  assumes "wf_array a" "k < nrows a" "j < ncols a"
  shows "\<exists>r. setitem a k j v = Inr r \<and> same_frame a r \<and> wf_array r \<and>
           (\<forall>k'<nrows a. \<forall>j'<ncols a. at r k' j' = (if k' = k \<and> j' = j then v else at a k' j'))"
proof -
  let ?r = "a\<lparr>buf := (buf a)[offset a k j := v]\<rparr>"
  have s: "setitem a k j v = Inr ?r" using assms by (simp add: setitem_def)
  have f: "same_frame a ?r" by (simp add: same_frame_def)
  have w: "wf_array ?r" using assms(1) by (simp add: wf_array_def)
  have o: "offset ?r k' j' = offset a k' j'" for k' j'
    by (cases "layout a") (simp_all add: offset_def)
  have v: "at ?r k' j' = (if k' = k \<and> j' = j then v else at a k' j')"
    if "k' < nrows a" "j' < ncols a" for k' j'
  proof (cases "k' = k \<and> j' = j")
    case True
    then show ?thesis using offset_less[OF assms] by (simp add: at_def o)
  next
    case False
    then have "offset a k j \<noteq> offset a k' j'" using offset_inj[OF assms(2,3) that] by blast
    then show ?thesis using False by (auto simp: at_def o)
  qed
  show ?thesis using s f w v by blast
qed

lemma fill_col_ok:
  assumes "x \<noteq> res" "wf_array (h res)" "\<forall>k\<in>set ks. k < nrows (h res)" "c < ncols (h res)"
    and "\<forall>k\<in>set ks. rhs (h x) k = Inr (f k)"
  shows "\<exists>h'. fill_col x res rhs c ks h = Inr h' \<and> (\<forall>a. a \<noteq> res \<longrightarrow> h' a = h a) \<and>
           same_frame (h res) (h' res) \<and> wf_array (h' res) \<and>
           (\<forall>k<nrows (h res). \<forall>j<ncols (h res).
              at (h' res) k j = (if j = c \<and> k \<in> set ks then f k else at (h res) k j))"
  using assms
proof (induction ks arbitrary: h)
  case Nil
  then show ?case by (simp add: same_frame_def)
next
  case (Cons k ks)
  from Cons.prems have k: "k < nrows (h res)" and r: "rhs (h x) k = Inr (f k)" by simp_all
  from setitem_ok[OF Cons.prems(2) k Cons.prems(4), of "f k"]
  obtain r where s: "setitem (h res) k c (f k) = Inr r" and fr: "same_frame (h res) r"
    and wr: "wf_array r"
    and vr: "\<forall>k'<nrows (h res). \<forall>j'<ncols (h res).
               at r k' j' = (if k' = k \<and> j' = c then f k else at (h res) k' j')"
    by blast
  let ?h1 = "h(res := r)"
  have x1: "?h1 x = h x" using Cons.prems(1) by simp
  have "\<exists>h'. fill_col x res rhs c ks ?h1 = Inr h' \<and> (\<forall>a. a \<noteq> res \<longrightarrow> h' a = ?h1 a) \<and>
           same_frame (?h1 res) (h' res) \<and> wf_array (h' res) \<and>
           (\<forall>k<nrows (?h1 res). \<forall>j<ncols (?h1 res).
              at (h' res) k j = (if j = c \<and> k \<in> set ks then f k else at (?h1 res) k j))"
    using Cons.prems fr wr by (intro Cons.IH) (simp_all add: same_frame_def)
  then obtain h' where run: "fill_col x res rhs c ks ?h1 = Inr h'"
    and oth: "\<forall>a. a \<noteq> res \<longrightarrow> h' a = ?h1 a"
    and fr': "same_frame r (h' res)" and w': "wf_array (h' res)"
    and v': "\<forall>k<nrows r. \<forall>j<ncols r.
              at (h' res) k j = (if j = c \<and> k \<in> set ks then f k else at r k j)"
    by auto
  have 1: "fill_col x res rhs c (k # ks) h = Inr h'" using r s run by simp
  have 2: "\<forall>a. a \<noteq> res \<longrightarrow> h' a = h a" using oth by simp
  have 3: "same_frame (h res) (h' res)" using fr fr' by (simp add: same_frame_def)
  have 4: "\<forall>k'<nrows (h res). \<forall>j<ncols (h res).
              at (h' res) k' j = (if j = c \<and> k' \<in> set (k # ks) then f k' else at (h res) k' j)"
    using v' vr fr by (auto simp: same_frame_def)
  show ?case using 1 2 3 w' 4 by blast
qed

section \<open>The loops\<close>

lemma emits_col:
  assumes "x \<noteq> res" "wf_array (h res)" "nrows (h x) \<le> nrows (h res)" "c < ncols (h res)"
    and "\<forall>k<nrows (h x). rhs (h x) k = Inr (feature_val (h x) k f)"
  shows "\<exists>h'. fill_col x res rhs c [0..<nrows (h x)] h = Inr h' \<and> emits x res h c [f] (h', c + 1)"
proof -
  have "\<exists>h'. fill_col x res rhs c [0..<nrows (h x)] h = Inr h' \<and> (\<forall>a. a \<noteq> res \<longrightarrow> h' a = h a) \<and>
           same_frame (h res) (h' res) \<and> wf_array (h' res) \<and>
           (\<forall>k<nrows (h res). \<forall>j<ncols (h res).
              at (h' res) k j = (if j = c \<and> k \<in> set [0..<nrows (h x)]
                 then feature_val (h x) k f else at (h res) k j))"
    using assms by (intro fill_col_ok) auto
  then obtain h' where 1: "fill_col x res rhs c [0..<nrows (h x)] h = Inr h'"
    and 2: "\<forall>a. a \<noteq> res \<longrightarrow> h' a = h a"
    and 3: "same_frame (h res) (h' res)" and 4: "wf_array (h' res)"
    and 5: "\<forall>k<nrows (h res). \<forall>j<ncols (h res).
              at (h' res) k j = (if j = c \<and> k \<in> set [0..<nrows (h x)]
                 then feature_val (h x) k f else at (h res) k j)"
    by blast
  have "emits x res h c [f] (h', c + 1)"
    unfolding emits_def using 2 3 4 5 by auto
  with 1 show ?thesis by blast
qed

lemma rhs_copy_val:
  "i < ncols x \<Longrightarrow> k < nrows x \<Longrightarrow> rhs_copy i x k = Inr (feature_val x k (Linear i))"
  by (simp add: rhs_copy_def getitem_def at_def)

lemma rhs_prod_val:
  "i < ncols x \<Longrightarrow> j < ncols x \<Longrightarrow> k < nrows x \<Longrightarrow>
     rhs_prod i j x k = Inr (feature_val x k (Product i j))"
  by (simp add: rhs_prod_def getitem_def at_def)

lemma emits_Nil: "wf_array (h res) \<Longrightarrow> emits x res h c [] (h, c)"
  by (auto simp: emits_def same_frame_def)

lemma emits_append:
  assumes "x \<noteq> res" "emits x res h c0 fs1 (h1, c1)" "emits x res h1 c1 fs2 s2"
  shows "emits x res h c0 (fs1 @ fs2) s2"
proof -
  from assms(1,2) have hx: "h1 x = h x" by (simp add: emits_def)
  from assms(2) have c1: "c1 = c0 + length fs1" and fr: "same_frame (h res) (h1 res)"
    and v1: "\<And>k c. k < nrows (h res) \<Longrightarrow> c < ncols (h res) \<Longrightarrow> at (h1 res) k c =
            (if k < nrows (h x) \<and> c0 \<le> c \<and> c < c0 + length fs1
             then feature_val (h x) k (fs1 ! (c - c0)) else at (h res) k c)"
    and o1: "\<And>a. a \<noteq> res \<Longrightarrow> h1 a = h a"
    by (simp_all add: emits_def)
  from assms(3) have c2: "snd s2 = c1 + length fs2" and fr2: "same_frame (h1 res) (fst s2 res)"
    and w2: "wf_array (fst s2 res)"
    and v2: "\<And>k c. k < nrows (h1 res) \<Longrightarrow> c < ncols (h1 res) \<Longrightarrow> at (fst s2 res) k c =
            (if k < nrows (h1 x) \<and> c1 \<le> c \<and> c < c1 + length fs2
             then feature_val (h1 x) k (fs2 ! (c - c1)) else at (h1 res) k c)"
    and o2: "\<And>a. a \<noteq> res \<Longrightarrow> fst s2 a = h1 a"
    by (simp_all add: emits_def)
  have sh: "nrows (h1 res) = nrows (h res)" "ncols (h1 res) = ncols (h res)"
    using fr by (simp_all add: same_frame_def)
  have v: "at (fst s2 res) k c =
            (if k < nrows (h x) \<and> c0 \<le> c \<and> c < c0 + length (fs1 @ fs2)
             then feature_val (h x) k ((fs1 @ fs2) ! (c - c0)) else at (h res) k c)"
    if "k < nrows (h res)" "c < ncols (h res)" for k c
  proof (cases "c1 \<le> c")
    case True
    then have "(fs1 @ fs2) ! (c - c0) = fs2 ! (c - c1)"
      using c1 by (auto simp: nth_append)
    then show ?thesis using v2[of k c] v1[of k c] that sh True c1 hx by auto
  next
    case False
    then have "c0 \<le> c \<Longrightarrow> (fs1 @ fs2) ! (c - c0) = fs1 ! (c - c0)"
      using c1 by (auto simp: nth_append)
    then show ?thesis using v2[of k c] v1[of k c] that sh False c1 hx by auto
  qed
  show ?thesis
    unfolding emits_def using c1 c2 o1 o2 fr fr2 w2 v by (auto simp: same_frame_def)
qed

lemma emits_frame:
  "emits x res h c fs (h', c') \<Longrightarrow>
     wf_array (h' res) \<and> nrows (h' res) = nrows (h res) \<and> ncols (h' res) = ncols (h res) \<and>
     (x \<noteq> res \<longrightarrow> h' x = h x)"
  by (simp add: emits_def same_frame_def)

lemma pair_loop_ok:
  assumes "x \<noteq> res" "wf_array (h res)" "nrows (h x) \<le> nrows (h res)"
    and "i < ncols (h x)" "\<forall>j\<in>set js. j < ncols (h x)" "c + length js \<le> ncols (h res)"
  shows "\<exists>s. pair_loop x res (nrows (h x)) i js (h, c) = Inr s \<and>
             emits x res h c (map (Product i) js) s"
  using assms
proof (induction js arbitrary: h c)
  case Nil
  then show ?case by (simp add: emits_Nil)
next
  case (Cons j js)
  have "\<exists>h'. fill_col x res (rhs_prod i j) c [0..<nrows (h x)] h = Inr h' \<and>
              emits x res h c [Product i j] (h', c + 1)"
    using Cons.prems by (intro emits_col) (simp_all add: rhs_prod_val)
  then obtain h' where f: "fill_col x res (rhs_prod i j) c [0..<nrows (h x)] h = Inr h'"
    and e: "emits x res h c [Product i j] (h', c + 1)" by blast
  note fr = emits_frame[OF e]
  have "\<exists>s. pair_loop x res (nrows (h' x)) i js (h', c + 1) = Inr s \<and>
             emits x res h' (c + 1) (map (Product i) js) s"
    using Cons.prems fr by (intro Cons.IH) simp_all
  then obtain s where p: "pair_loop x res (nrows (h x)) i js (h', c + 1) = Inr s"
    and e': "emits x res h' (c + 1) (map (Product i) js) s"
    using fr Cons.prems(1) by auto
  have "emits x res h c ([Product i j] @ map (Product i) js) s"
    using emits_append[OF Cons.prems(1) e e'] .
  then show ?case using f p by simp
qed

lemma length_block: "length (block n i) = 1 + (n - i)"
  by (simp add: block_def)

lemma var_loop_ok:
  assumes "x \<noteq> res" "wf_array (h res)" "nrows (h x) \<le> nrows (h res)"
    and "\<forall>i\<in>set is. i < ncols (h x)"
    and "c + length (concat (map (block (ncols (h x))) is)) \<le> ncols (h res)"
  shows "\<exists>s. var_loop x res (nrows (h x)) (ncols (h x)) is (h, c) = Inr s \<and>
             emits x res h c (concat (map (block (ncols (h x))) is)) s"
  using assms
proof (induction "is" arbitrary: h c)
  case Nil
  then show ?case by (simp add: emits_Nil)
next
  case (Cons i "is")
  let ?n = "ncols (h x)" and ?m = "nrows (h x)"
  have i: "i < ?n" using Cons.prems by simp
  have len: "c + (1 + (?n - i) + length (concat (map (block ?n) is))) \<le> ncols (h res)"
    using Cons.prems(5) by (simp add: length_block)
  have "\<exists>h1. fill_col x res (rhs_copy i) c [0..<?m] h = Inr h1 \<and>
              emits x res h c [Linear i] (h1, c + 1)"
    using Cons.prems(1-3) i len by (intro emits_col) (simp_all add: rhs_copy_val)
  then obtain h1 where f: "fill_col x res (rhs_copy i) c [0..<?m] h = Inr h1"
    and e1: "emits x res h c [Linear i] (h1, c + 1)" by blast
  note fr1 = emits_frame[OF e1]
  have "\<exists>s. pair_loop x res (nrows (h1 x)) i [i..<?n] (h1, c + 1) = Inr s \<and>
             emits x res h1 (c + 1) (map (Product i) [i..<?n]) s"
    using Cons.prems(1-3) i len fr1 by (intro pair_loop_ok) simp_all
  then obtain s2 where p: "pair_loop x res ?m i [i..<?n] (h1, c + 1) = Inr s2"
    and e2: "emits x res h1 (c + 1) (map (Product i) [i..<?n]) s2"
    using fr1 Cons.prems(1) by auto
  have e12: "emits x res h c (block ?n i) s2"
    using emits_append[OF Cons.prems(1) e1 e2] by (simp add: block_def)
  obtain h2 c2 where s2: "s2 = (h2, c2)" by (cases s2)
  note fr2 = emits_frame[OF e12[unfolded s2]]
  have c2: "c2 = c + length (block ?n i)" using e12 s2 by (simp add: emits_def)
  have "\<exists>s. var_loop x res (nrows (h2 x)) (ncols (h2 x)) is (h2, c2) = Inr s \<and>
             emits x res h2 c2 (concat (map (block (ncols (h2 x))) is)) s"
    using Cons.prems fr2 c2 by (intro Cons.IH) (simp_all add: length_block)
  then obtain s where v: "var_loop x res ?m ?n is (h2, c2) = Inr s"
    and e3: "emits x res h2 c2 (concat (map (block ?n) is)) s"
    using fr2 Cons.prems(1) by auto
  have "emits x res h c (block ?n i @ concat (map (block ?n) is)) s"
    using emits_append[OF Cons.prems(1) e12[unfolded s2] e3] .
  then show ?case using f p v s2 by simp
qed

section \<open>Where each feature lands\<close>

lemma length_blocks_upto:
  "i \<le> n \<Longrightarrow> length (concat (map (block n) [0..<i])) = first_col n i"
  by (induction i) (simp_all add: length_block)

lemma first_col_double: "i \<le> n \<Longrightarrow> 2 * first_col n i + i * (i - 1) = 2 * i * (n + 1)"
proof (induction i)
  case 0
  then show ?case by simp
next
  case (Suc i)
  then have "2 * first_col n i + i * (i - 1) = 2 * i * (n + 1)" and "i < n" by simp_all
  then show ?case by (cases i) (simp_all add: algebra_simps)
qed

lemma first_col_closed: "i \<le> n \<Longrightarrow> first_col n i = i * (n + 1) - i * (i - 1) div 2"
proof -
  assume "i \<le> n"
  from first_col_double[OF this] have e: "2 * first_col n i + i * (i - 1) = 2 * (i * (n + 1))"
    by simp
  have "even (i * (i - 1))" by (cases i) simp_all
  then obtain q where q: "i * (i - 1) = 2 * q" by (elim evenE)
  with e have "first_col n i + q = i * (n + 1)" by simp
  with q show ?thesis by simp
qed

lemma first_col_full: "first_col n n = n_feat n"
proof -
  from first_col_double[of n n] have e: "2 * first_col n n + n * (n - 1) = 2 * n * (n + 1)" by simp
  have "n * (n + 1) = n * (n - 1) + 2 * n" by (cases n) (simp_all add: algebra_simps)
  with e have "2 * first_col n n = n * (n + 1) + 2 * n" by (simp add: algebra_simps)
  moreover have "even (n * (n + 1))" by simp
  ultimately show ?thesis unfolding n_feat_def by (elim evenE) simp
qed

lemma length_column_order: "length (column_order n) = n_feat n"
  using length_blocks_upto[of n n] by (simp add: column_order_def first_col_full)

lemma column_order_split:
  assumes "i < n"
  shows "column_order n =
           concat (map (block n) [0..<i]) @ block n i @ concat (map (block n) [Suc i..<n])"
proof -
  have "[0..<i + (n - i)] = [0..<i] @ [i..<i + (n - i)]"
    by (rule upt_add_eq_append) simp
  then have "[0..<n] = [0..<i] @ i # [Suc i..<n]"
    using assms by (simp add: upt_conv_Cons)
  then show ?thesis by (simp add: column_order_def)
qed

lemma column_order_nth_block:
  assumes "i < n" "d < length (block n i)"
  shows "column_order n ! (first_col n i + d) = block n i ! d"
proof -
  have "length (concat (map (block n) [0..<i])) = first_col n i"
    using assms(1) by (simp add: length_blocks_upto)
  then show ?thesis
    using assms(2) by (simp add: column_order_split[OF assms(1)] nth_append)
qed

lemma column_order_linear: "i < n \<Longrightarrow> column_order n ! first_col n i = Linear i"
  using column_order_nth_block[of i n 0] by (simp add: block_def)

lemma column_order_product:
  assumes "i \<le> j" "j < n"
  shows "column_order n ! (first_col n i + 1 + (j - i)) = Product i j"
proof -
  have "column_order n ! (first_col n i + Suc (j - i)) = block n i ! Suc (j - i)"
    using assms by (intro column_order_nth_block) (simp_all add: length_block)
  then show ?thesis using assms by (simp add: block_def)
qed

lemma first_col_bound:
  assumes "i < n" "d < length (block n i)"
  shows "first_col n i + d < n_feat n"
proof -
  have "first_col n i + d < length (concat (map (block n) [0..<i]) @ block n i)"
    using assms by (simp add: length_blocks_upto)
  also have "\<dots> \<le> length (column_order n)"
    by (simp add: column_order_split[OF assms(1)])
  finally show ?thesis by (simp add: length_column_order)
qed

lemma array_eqI:
  fixes a b :: "'a ndarray"
  assumes "wf_array a" "wf_array b" "same_frame a b"
    and "\<And>k j. k < nrows a \<Longrightarrow> j < ncols a \<Longrightarrow> at a k j = at b k j"
  shows "a = b"
proof -
  let ?m = "nrows a" and ?n = "ncols a"
  have len: "length (buf a) = length (buf b)"
    using assms(1-3) by (simp add: wf_array_def same_frame_def)
  have "buf a ! p = buf b ! p" if "p < length (buf a)" for p
  proof -
    from that assms(1) have p: "p < ?m * ?n" by (simp add: wf_array_def)
    have pos: "0 < ?n" "0 < ?m" using p by (cases "?n = 0"; cases "?m = 0"; simp)+
    show ?thesis
    proof (cases "layout a")
      case RowMajor
      have "p div ?n < ?m" using p by (rule less_mult_imp_div_less)
      moreover have "p mod ?n < ?n" using pos by simp
      moreover have "offset a (p div ?n) (p mod ?n) = p" "offset b (p div ?n) (p mod ?n) = p"
        using RowMajor assms(3) by (simp_all add: offset_def same_frame_def)
      ultimately show ?thesis using assms(4)[of "p div ?n" "p mod ?n"] by (simp add: at_def)
    next
      case ColMajor
      have "p < ?n * ?m" using p by (simp add: mult.commute)
      then have "p div ?m < ?n" by (rule less_mult_imp_div_less)
      moreover have "p mod ?m < ?m" using pos by simp
      moreover have "offset a (p mod ?m) (p div ?m) = p" "offset b (p mod ?m) (p div ?m) = p"
        using ColMajor assms(3) by (simp_all add: offset_def same_frame_def)
      ultimately show ?thesis using assms(4)[of "p mod ?m" "p div ?m"] by (simp add: at_def)
    qed
  qed
  with len have "buf a = buf b" by (intro nth_equalityI) simp_all
  then show ?thesis using assms(3) by (simp add: same_frame_def)
qed

lemma vec_poly_run_ok:
  assumes "x \<noteq> res" "wf_array (h res)" "nrows (h x) \<le> nrows (h res)"
    and "n_feat (ncols (h x)) \<le> ncols (h res)"
  shows "\<exists>s. vec_poly_run x res h = Inr s \<and> emits x res h 0 (column_order (ncols (h x))) s"
proof -
  have "\<exists>s. var_loop x res (nrows (h x)) (ncols (h x)) [0..<ncols (h x)] (h, 0) = Inr s \<and>
             emits x res h 0 (concat (map (block (ncols (h x))) [0..<ncols (h x)])) s"
    using assms length_column_order[of "ncols (h x)"]
    by (intro var_loop_ok) (simp_all add: column_order_def)
  then show ?thesis unfolding vec_poly_run_def column_order_def Let_def .
qed

lemma n_feat_eq_0: "n_feat n \<le> n \<Longrightarrow> n = 0"
  by (cases n) (simp_all add: n_feat_def)

section \<open>The whole kernel\<close>

lemma vec_poly_run_degenerate:
  assumes "nrows (h x) = 0 \<or> ncols (h x) = 0"
  shows "vec_poly_run x res h = Inr (h, n_feat (ncols (h x)))"
proof -
  have p: "pair_loop x res 0 i js (h, c) = Inr (h, c + length js)" for i js c
    by (induction js arbitrary: c) simp_all
  have v: "var_loop x res 0 n is (h, c) = Inr (h, c + length (concat (map (block n) is)))"
    for n "is" c
    by (induction "is" arbitrary: c) (simp_all add: p length_block)
  from assms show ?thesis
  proof
    assume "nrows (h x) = 0"
    then show ?thesis
      using length_column_order[of "ncols (h x)"]
      by (simp add: vec_poly_run_def v Let_def column_order_def)
  next
    assume "ncols (h x) = 0"
    then show ?thesis by (simp add: vec_poly_run_def n_feat_def)
  qed
qed

lemma vec_poly_run_main:
  assumes "wf_array (h res)" "nrows (h x) \<le> nrows (h res)"
    and "n_feat (ncols (h x)) \<le> ncols (h res)"
  shows "\<exists>h'. vec_poly_run x res h = Inr (h', n_feat (ncols (h x))) \<and> h' x = h x \<and>
              emits x res h 0 (column_order (ncols (h x))) (h', n_feat (ncols (h x)))"
proof (cases "x = res")
  case True
  with assms(3) have n: "ncols (h x) = 0" by (simp add: n_feat_eq_0)
  then have "vec_poly_run x res h = Inr (h, n_feat (ncols (h x)))"
    by (simp add: vec_poly_run_degenerate)
  moreover have "emits x res h 0 (column_order (ncols (h x))) (h, n_feat (ncols (h x)))"
    using n emits_Nil[of h res x 0] assms(1) by (simp add: column_order_def n_feat_def)
  ultimately show ?thesis by blast
next
  case False
  from vec_poly_run_ok[OF False assms] obtain s where
    r: "vec_poly_run x res h = Inr s" and e: "emits x res h 0 (column_order (ncols (h x))) s"
    by blast
  obtain h' c where s: "s = (h', c)" by (cases s)
  from e s have "c = n_feat (ncols (h x))" by (simp add: emits_def length_column_order)
  moreover from e s False have "h' x = h x" by (simp add: emits_def)
  ultimately show ?thesis using r e s by blast
qed

lemma getitem_at: "k < nrows a \<Longrightarrow> j < ncols a \<Longrightarrow> getitem a k j = Inr (at a k j)"
  by (simp add: getitem_def at_def)

lemma vec_poly_main:
  assumes "wf_array (h res)" "nrows (h x) \<le> nrows (h res)"
    and "n_feat (ncols (h x)) \<le> ncols (h res)"
  shows "\<exists>h'. vec_poly x res h = Inr h' \<and>
              vec_poly_run x res h = Inr (h', n_feat (ncols (h x))) \<and> h' x = h x \<and>
              (\<forall>a. a \<noteq> res \<longrightarrow> h' a = h a) \<and>
              same_frame (h res) (h' res) \<and> wf_array (h' res) \<and>
              (\<forall>k c. k < nrows (h res) \<longrightarrow> c < ncols (h res) \<longrightarrow>
                 getitem (h' res) k c =
                   (if k < nrows (h x) \<and> c < n_feat (ncols (h x))
                    then Inr (feature_val (h x) k (column_order (ncols (h x)) ! c))
                    else getitem (h res) k c))"
proof -
  let ?n = "ncols (h x)"
  from vec_poly_run_main[OF assms] obtain h' where
    r: "vec_poly_run x res h = Inr (h', n_feat ?n)" and hx: "h' x = h x"
    and e: "emits x res h 0 (column_order ?n) (h', n_feat ?n)"
    by blast
  from e have o: "\<forall>a. a \<noteq> res \<longrightarrow> h' a = h a" and fr: "same_frame (h res) (h' res)"
    and w: "wf_array (h' res)"
    and v: "\<And>k c. k < nrows (h res) \<Longrightarrow> c < ncols (h res) \<Longrightarrow> at (h' res) k c =
              (if k < nrows (h x) \<and> c < n_feat ?n
               then feature_val (h x) k (column_order ?n ! c) else at (h res) k c)"
    by (simp_all add: emits_def length_column_order)
  have g: "getitem (h' res) k c =
             (if k < nrows (h x) \<and> c < n_feat ?n
              then Inr (feature_val (h x) k (column_order ?n ! c)) else getitem (h res) k c)"
    if "k < nrows (h res)" "c < ncols (h res)" for k c
    using that v[OF that] fr by (simp add: getitem_at same_frame_def)
  have "vec_poly x res h = Inr h'" using r by (simp add: vec_poly_def)
  with r hx o fr w g show ?thesis by blast
qed

lemma column_order_ok: "c < n_feat n \<Longrightarrow> feature_ok n (column_order n ! c)"
proof -
  assume "c < n_feat n"
  then have "column_order n ! c \<in> set (column_order n)" by (simp add: length_column_order)
  then show ?thesis by (auto simp: column_order_def block_def feature_ok_def)
qed

lemma feature_val_cong:
  assumes "feature_ok (ncols x1) f" "k < nrows x1"
    and "\<And>j. j < ncols x1 \<Longrightarrow> at x2 k j = at x1 k j"
  shows "feature_val x2 k f = feature_val x1 k f"
  using assms by (cases f) (simp_all add: feature_ok_def)

section \<open>Results as arrays\<close>

lemma getitem_eq_at:
  assumes "same_frame a b" "k < nrows a" "j < ncols a" "getitem a k j = getitem b k j"
  shows "at a k j = at b k j"
  using assms by (simp add: getitem_at same_frame_def)

lemma same_result_array:
  assumes "wf_array a" "wf_array b" "same_frame a b"
    and "\<And>k j. k < nrows a \<Longrightarrow> j < ncols a \<Longrightarrow> getitem a k j = getitem b k j"
  shows "a = b"
  using assms by (intro array_eqI) (simp_all add: getitem_eq_at)

lemma vec_poly_on_main:
  assumes "wf_array r" "nrows trn \<le> nrows r" "n_feat (ncols trn) \<le> ncols r"
  shows "\<exists>out. vec_poly_on trn r = Inr out \<and> same_frame r out \<and> wf_array out \<and>
            (\<forall>k c. k < nrows r \<longrightarrow> c < ncols r \<longrightarrow>
               getitem out k c =
                 (if k < nrows trn \<and> c < n_feat (ncols trn)
                  then Inr (feature_val trn k (column_order (ncols trn) ! c))
                  else getitem r k c))"
proof -
  let ?h = "(\<lambda>_::nat. r)(0 := trn)"
  have "wf_array (?h 1)" "nrows (?h 0) \<le> nrows (?h 1)" "n_feat (ncols (?h 0)) \<le> ncols (?h 1)"
    using assms by simp_all
  from vec_poly_main[OF this] obtain h' where
    "vec_poly 0 1 ?h = Inr h'" "same_frame (?h 1) (h' 1)" "wf_array (h' 1)"
    "\<forall>k c. k < nrows (?h 1) \<longrightarrow> c < ncols (?h 1) \<longrightarrow>
                 getitem (h' 1) k c =
                   (if k < nrows (?h 0) \<and> c < n_feat (ncols (?h 0))
                    then Inr (feature_val (?h 0) k (column_order (ncols (?h 0)) ! c))
                    else getitem (?h 1) k c)"
    by blast
  then show ?thesis by (simp add: vec_poly_on_def)
qed

lemma zeros_simps:
  "nrows (zeros m n ord) = m" "ncols (zeros m n ord) = n" "layout (zeros m n ord) = ord"
  "wf_array (zeros m n ord)"
  by (simp_all add: zeros_def wf_array_def)

lemma expand_main:
  "\<exists>out. expand trn = Inr out \<and> nrows out = nrows trn \<and> ncols out = n_feat (ncols trn) \<and>
          layout out = ColMajor \<and> wf_array out \<and>
          (\<forall>k c. k < nrows trn \<longrightarrow> c < n_feat (ncols trn) \<longrightarrow>
             getitem out k c = Inr (feature_val trn k (column_order (ncols trn) ! c)))"
proof -
  let ?r = "zeros (nrows trn) (n_feat (ncols trn)) ColMajor :: 'a ndarray"
  have "wf_array ?r" "nrows trn \<le> nrows ?r" "n_feat (ncols trn) \<le> ncols ?r"
    by (simp_all add: zeros_simps)
  from vec_poly_on_main[OF this] obtain out where
    "vec_poly_on trn ?r = Inr out" "same_frame ?r out" "wf_array out"
    "\<forall>k c. k < nrows ?r \<longrightarrow> c < ncols ?r \<longrightarrow>
               getitem out k c =
                 (if k < nrows trn \<and> c < n_feat (ncols trn)
                  then Inr (feature_val trn k (column_order (ncols trn) ! c))
                  else getitem ?r k c)"
    by blast
  then show ?thesis by (simp add: expand_def same_frame_def zeros_simps)
qed

lemma same_values_features:
  assumes "nrows x2 = nrows x1" "ncols x2 = ncols x1"
    and "\<forall>k<nrows x1. \<forall>j<ncols x1. getitem x2 k j = getitem x1 k j"
    and "k < nrows x1" "c < n_feat (ncols x1)"
  shows "feature_val x2 k (column_order (ncols x2) ! c) =
         feature_val x1 k (column_order (ncols x1) ! c)"
proof -
  have "at x2 k j = at x1 k j" if "j < ncols x1" for j
    using assms(1-4) that by (simp add: getitem_def at_def)
  then show ?thesis
    using assms(2,4,5) by (simp add: feature_val_cong column_order_ok)
qed

section \<open>Column-major copies\<close>

lemma concat_uniform:
  assumes "\<And>j. j < n \<Longrightarrow> length (f j) = m"
  shows "length (concat (map f [0..<n])) = n * m \<and>
         (\<forall>j<n. \<forall>k<m. concat (map f [0..<n]) ! (j * m + k) = f j ! k)"
  using assms
proof (induction n)
  case 0
  then show ?case by simp
next
  case (Suc n)
  then have len: "length (concat (map f [0..<n])) = n * m"
    and nth: "\<And>j k. j < n \<Longrightarrow> k < m \<Longrightarrow> concat (map f [0..<n]) ! (j * m + k) = f j ! k"
    and fn: "length (f n) = m"
    by simp_all
  have "concat (map f [0..<Suc n]) ! (j * m + k) = f j ! k" if "j < Suc n" "k < m" for j k
  proof (cases "j < n")
    case True
    have "j * m + k < Suc j * m" using that(2) by simp
    also have "\<dots> \<le> n * m" using True by (intro mult_le_mono1) simp
    finally show ?thesis using nth[OF True that(2)] len by (simp add: nth_append)
  next
    case False
    with that have "j = n" by simp
    then show ?thesis using len by (simp add: nth_append)
  qed
  then show ?case using len fn by simp
qed

lemma asfortranarray_same:
  "nrows (asfortranarray a) = nrows a" "ncols (asfortranarray a) = ncols a"
  "layout (asfortranarray a) = ColMajor" "wf_array a \<Longrightarrow> wf_array (asfortranarray a)"
  "getitem (asfortranarray a) k j = getitem a k j"
proof -
  let ?f = "\<lambda>j. map (\<lambda>k. buf a ! offset a k j) [0..<nrows a]"
  have u: "length (concat (map ?f [0..<ncols a])) = ncols a * nrows a \<and>
         (\<forall>j<ncols a. \<forall>k<nrows a. concat (map ?f [0..<ncols a]) ! (j * nrows a + k) = ?f j ! k)"
    by (rule concat_uniform) simp
  show "nrows (asfortranarray a) = nrows a" "ncols (asfortranarray a) = ncols a"
    "layout (asfortranarray a) = ColMajor"
    by (simp_all add: asfortranarray_def)
  show "wf_array a \<Longrightarrow> wf_array (asfortranarray a)"
    using u by (simp add: asfortranarray_def wf_array_def mult.commute)
  show "getitem (asfortranarray a) k j = getitem a k j"
  proof (cases "layout a = ColMajor")
    case True
    then show ?thesis by (simp add: asfortranarray_def)
  next
    case False
    then have o: "offset (asfortranarray a) k j = j * nrows a + k"
      and b: "buf (asfortranarray a) = concat (map ?f [0..<ncols a])"
      and s: "nrows (asfortranarray a) = nrows a" "ncols (asfortranarray a) = ncols a"
      by (simp_all add: asfortranarray_def offset_def)
    show ?thesis
    proof (cases "k < nrows a \<and> j < ncols a")
      case True
      then have "concat (map ?f [0..<ncols a]) ! (j * nrows a + k) = ?f j ! k"
        using u by blast
      also have "\<dots> = buf a ! offset a k j" using True by simp
      finally have "buf (asfortranarray a) ! offset (asfortranarray a) k j = buf a ! offset a k j"
        by (simp only: o b)
      then show ?thesis by (simp only: getitem_def s)
    next
      case False
      then show ?thesis by (simp only: getitem_def s) simp
    qed
  qed
qed

section \<open>Shared memory: what a run writes\<close>

lemma cell_in_cells: "k < vrows v \<Longrightarrow> j < vcols v \<Longrightarrow> cell v k j \<in> set (cells v)"
  unfolding cells_def by (auto intro!: bexI[of _ k] imageI)

lemma store_frame:
  assumes "store mem v k j a = Inr mem'" "p \<notin> set (cells v)"
  shows "mem' p = mem p"
proof -
  from assms(1) have r: "k < vrows v" "j < vcols v" and m: "mem' = mem(cell v k j := a)"
    by (auto simp: store_def split: if_splits)
  from cell_in_cells[OF r] assms(2) have "p \<noteq> cell v k j" by auto
  with m show ?thesis by simp
qed

lemma fill_col_mem_ok:
  assumes "\<forall>k\<in>set ks. k < vrows res" "c < vcols res"
    and "\<And>mem k. k \<in> set ks \<Longrightarrow> \<exists>v. rhs mem k = Inr v"
  shows "\<exists>mem'. fill_col_mem res rhs c ks mem = Inr mem' \<and>
            (\<forall>p. p \<notin> set (cells res) \<longrightarrow> mem' p = mem p)"
  using assms
proof (induction ks arbitrary: mem)
  case Nil
  then show ?case by simp
next
  case (Cons k ks)
  from Cons.prems(3)[of k mem] obtain v where v: "rhs mem k = Inr v" by auto
  from Cons.prems(1,2) have s: "store mem res k c v = Inr (mem(cell res k c := v))"
    by (simp add: store_def)
  let ?m1 = "mem(cell res k c := v)"
  have "\<exists>mem'. fill_col_mem res rhs c ks ?m1 = Inr mem' \<and>
            (\<forall>p. p \<notin> set (cells res) \<longrightarrow> mem' p = ?m1 p)"
    using Cons.prems by (intro Cons.IH) simp_all
  then obtain mem' where r: "fill_col_mem res rhs c ks ?m1 = Inr mem'"
    and f: "\<forall>p. p \<notin> set (cells res) \<longrightarrow> mem' p = ?m1 p" by blast
  have "\<forall>p. p \<notin> set (cells res) \<longrightarrow> mem' p = mem p"
    using f store_frame[OF s] by simp
  with v s r show ?case by simp
qed

lemma rhs_copy_mem_ok: "i < vcols x \<Longrightarrow> k < vrows x \<Longrightarrow> \<exists>v. rhs_copy_mem x i mem k = Inr v"
  by (simp add: rhs_copy_mem_def load_def)

lemma rhs_prod_mem_ok:
  "i < vcols x \<Longrightarrow> j < vcols x \<Longrightarrow> k < vrows x \<Longrightarrow> \<exists>v. rhs_prod_mem x i j mem k = Inr v"
  by (simp add: rhs_prod_mem_def load_def)

lemma pair_loop_mem_ok:
  assumes "vrows x \<le> vrows res" "i < vcols x" "\<forall>j\<in>set js. j < vcols x"
    and "c + length js \<le> vcols res"
  shows "\<exists>mem'. pair_loop_mem x res (vrows x) i js (mem, c) = Inr (mem', c + length js) \<and>
            (\<forall>p. p \<notin> set (cells res) \<longrightarrow> mem' p = mem p)"
  using assms
proof (induction js arbitrary: mem c)
  case Nil
  then show ?case by simp
next
  case (Cons j js)
  have "\<exists>mem1. fill_col_mem res (rhs_prod_mem x i j) c [0..<vrows x] mem = Inr mem1 \<and>
            (\<forall>p. p \<notin> set (cells res) \<longrightarrow> mem1 p = mem p)"
    using Cons.prems by (intro fill_col_mem_ok) (simp_all add: rhs_prod_mem_ok)
  then obtain mem1 where
    f: "fill_col_mem res (rhs_prod_mem x i j) c [0..<vrows x] mem = Inr mem1"
    and f1: "\<forall>p. p \<notin> set (cells res) \<longrightarrow> mem1 p = mem p" by blast
  have "\<exists>mem'. pair_loop_mem x res (vrows x) i js (mem1, c + 1) = Inr (mem', c + 1 + length js) \<and>
            (\<forall>p. p \<notin> set (cells res) \<longrightarrow> mem' p = mem1 p)"
    using Cons.prems by (intro Cons.IH) simp_all
  then obtain mem' where
    p: "pair_loop_mem x res (vrows x) i js (mem1, c + 1) = Inr (mem', c + 1 + length js)"
    and f2: "\<forall>p. p \<notin> set (cells res) \<longrightarrow> mem' p = mem1 p" by blast
  from f p f1 f2 show ?case by simp
qed

lemma var_loop_mem_ok:
  assumes "vrows x \<le> vrows res" "\<forall>i\<in>set is. i < vcols x"
    and "c + length (concat (map (block (vcols x)) is)) \<le> vcols res"
  shows "\<exists>mem'. var_loop_mem x res (vrows x) (vcols x) is (mem, c) =
                   Inr (mem', c + length (concat (map (block (vcols x)) is))) \<and>
            (\<forall>p. p \<notin> set (cells res) \<longrightarrow> mem' p = mem p)"
  using assms
proof (induction "is" arbitrary: mem c)
  case Nil
  then show ?case by simp
next
  case (Cons i "is")
  let ?n = "vcols x" and ?m = "vrows x"
  let ?rest = "length (concat (map (block ?n) is))"
  have i: "i < ?n" using Cons.prems by simp
  have len: "c + (1 + (?n - i) + ?rest) \<le> vcols res"
    using Cons.prems(3) by (simp add: length_block)
  have "\<exists>mem1. fill_col_mem res (rhs_copy_mem x i) c [0..<?m] mem = Inr mem1 \<and>
            (\<forall>p. p \<notin> set (cells res) \<longrightarrow> mem1 p = mem p)"
    using Cons.prems(1) i len by (intro fill_col_mem_ok) (simp_all add: rhs_copy_mem_ok)
  then obtain mem1 where f: "fill_col_mem res (rhs_copy_mem x i) c [0..<?m] mem = Inr mem1"
    and f1: "\<forall>p. p \<notin> set (cells res) \<longrightarrow> mem1 p = mem p" by blast
  have "\<exists>mem2. pair_loop_mem x res ?m i [i..<?n] (mem1, c + 1) =
                  Inr (mem2, c + 1 + length [i..<?n]) \<and>
            (\<forall>p. p \<notin> set (cells res) \<longrightarrow> mem2 p = mem1 p)"
    using Cons.prems(1) i len by (intro pair_loop_mem_ok) simp_all
  then obtain mem2 where
    p: "pair_loop_mem x res ?m i [i..<?n] (mem1, c + 1) = Inr (mem2, c + 1 + (?n - i))"
    and f2: "\<forall>p. p \<notin> set (cells res) \<longrightarrow> mem2 p = mem1 p" by auto
  have "\<exists>mem'. var_loop_mem x res ?m ?n is (mem2, c + 1 + (?n - i)) =
                   Inr (mem', c + 1 + (?n - i) + ?rest) \<and>
            (\<forall>p. p \<notin> set (cells res) \<longrightarrow> mem' p = mem2 p)"
    using Cons.prems len by (intro Cons.IH) simp_all
  then obtain mem' where
    v: "var_loop_mem x res ?m ?n is (mem2, c + 1 + (?n - i)) =
          Inr (mem', c + 1 + (?n - i) + ?rest)"
    and f3: "\<forall>p. p \<notin> set (cells res) \<longrightarrow> mem' p = mem2 p" by blast
  from f p v f1 f2 f3 show ?case by (simp add: length_block add.assoc)
qed

lemma vec_poly_mem_main:
  assumes "vrows x \<le> vrows res" "n_feat (vcols x) \<le> vcols res"
  shows "\<exists>mem'. vec_poly_mem_run x res mem = Inr (mem', n_feat (vcols x)) \<and>
            vec_poly_mem x res mem = Inr mem' \<and>
            (\<forall>p. p \<notin> set (cells res) \<longrightarrow> mem' p = mem p)"
proof -
  have l: "length (concat (map (block (vcols x)) [0..<vcols x])) = n_feat (vcols x)"
    using length_column_order[of "vcols x"] by (simp add: column_order_def)
  have "\<exists>mem'. var_loop_mem x res (vrows x) (vcols x) [0..<vcols x] (mem, 0) =
                   Inr (mem', 0 + length (concat (map (block (vcols x)) [0..<vcols x]))) \<and>
            (\<forall>p. p \<notin> set (cells res) \<longrightarrow> mem' p = mem p)"
    using assms l by (intro var_loop_mem_ok) simp_all
  then show ?thesis by (auto simp: vec_poly_mem_def vec_poly_mem_run_def l)
qed

section \<open>Shared memory and the store agree on separate arrays\<close>

lemma load_getitem: "represents mem v a \<Longrightarrow> load mem v k j = getitem a k j"
  by (simp add: represents_def load_def getitem_def at_def)

lemma rhs_copy_sim: "represents mem vx a \<Longrightarrow> rhs_copy_mem vx i mem k = rhs_copy i a k"
  by (simp add: rhs_copy_mem_def rhs_copy_def load_getitem[of mem vx a])

lemma rhs_prod_sim: "represents mem vx a \<Longrightarrow> rhs_prod_mem vx i j mem k = rhs_prod i j a k"
  by (simp add: rhs_prod_mem_def rhs_prod_def load_getitem[of mem vx a] split: sum.splits)

lemma store_setitem_sim:
  assumes "xr \<noteq> rr" "inj_view vr" "set (cells vx) \<inter> set (cells vr) = {}"
    and "sim vx vr xr rr mem h"
  shows "rel_sum (=) (\<lambda>mem' r. sim vx vr xr rr mem' (h(rr := r)))
           (store mem vr k c v) (setitem (h rr) k c v)"
proof (cases "k < nrows (h rr) \<and> c < ncols (h rr)")
  case False
  with assms(4) show ?thesis
    by (auto simp: sim_def represents_def store_def setitem_def)
next
  case True
  from assms(4) have rx: "represents mem vx (h xr)" and rr: "represents mem vr (h rr)"
    and w: "wf_array (h rr)" by (simp_all add: sim_def)
  from rr have sh: "vrows vr = nrows (h rr)" "vcols vr = ncols (h rr)"
    by (simp_all add: represents_def)
  from setitem_ok[OF w, of k c v] True obtain r where
    s: "setitem (h rr) k c v = Inr r" and fr: "same_frame (h rr) r" and wr: "wf_array r"
    and vr: "\<And>k' j'. k' < nrows (h rr) \<Longrightarrow> j' < ncols (h rr) \<Longrightarrow>
               at r k' j' = (if k' = k \<and> j' = c then v else at (h rr) k' j')"
    by blast
  let ?m = "mem(cell vr k c := v)"
  have st: "store mem vr k c v = Inr ?m" using True sh by (simp add: store_def)
  have in_r: "cell vr k c \<in> set (cells vr)" using True sh by (simp add: cell_in_cells)
  have 1: "represents ?m vx (h xr)"
  proof -
    have "?m (cell vx k' j') = mem (cell vx k' j')"
      if "k' < vrows vx" "j' < vcols vx" for k' j'
      using cell_in_cells[OF that] in_r assms(3) by auto
    with rx show ?thesis by (simp add: represents_def)
  qed
  have 2: "represents ?m vr r"
  proof -
    have "?m (cell vr k' j') = at r k' j'" if "k' < nrows (h rr)" "j' < ncols (h rr)" for k' j'
    proof (cases "k' = k \<and> j' = c")
      case True
      then show ?thesis using vr[OF that] by simp
    next
      case False
      then have "cell vr k' j' \<noteq> cell vr k c"
        using assms(2) that True sh unfolding inj_view_def by metis
      then show ?thesis using vr[OF that] False rr that by (auto simp: represents_def)
    qed
    then show ?thesis using fr sh by (simp add: represents_def same_frame_def)
  qed
  have "sim vx vr xr rr ?m (h(rr := r))"
    using 1 2 wr assms(1) by (simp add: sim_def)
  with s st show ?thesis by simp
qed

lemma fill_col_sim:
  assumes "xr \<noteq> rr" "inj_view vr" "set (cells vx) \<inter> set (cells vr) = {}"
    and "\<And>mem a k. represents mem vx a \<Longrightarrow> rhs_m mem k = rhs a k"
    and "sim vx vr xr rr mem h"
  shows "rel_sum (=) (sim vx vr xr rr)
           (fill_col_mem vr rhs_m c ks mem) (fill_col xr rr rhs c ks h)"
  using assms(5)
proof (induction ks arbitrary: mem h)
  case Nil
  then show ?case by simp
next
  case (Cons k ks)
  from Cons.prems have e: "rhs_m mem k = rhs (h xr) k"
    by (intro assms(4)) (simp add: sim_def)
  show ?case
  proof (cases "rhs (h xr) k")
    case (Inl f)
    with e show ?thesis by simp
  next
    case (Inr v)
    note st = store_setitem_sim[OF assms(1-3) Cons.prems, of k c v]
    show ?thesis
    proof (cases "setitem (h rr) k c v")
      case (Inl f)
      with st obtain f' where "store mem vr k c v = Inl f'" "f' = f"
        by (cases "store mem vr k c v") auto
      with Inl Inr e show ?thesis by simp
    next
      case r: (Inr r)
      with st obtain m1 where m1: "store mem vr k c v = Inr m1"
        and s1: "sim vx vr xr rr m1 (h(rr := r))"
        by (cases "store mem vr k c v") auto
      have "fill_col_mem vr rhs_m c (k # ks) mem = fill_col_mem vr rhs_m c ks m1"
        using e Inr m1 by simp
      moreover have "fill_col xr rr rhs c (k # ks) h = fill_col xr rr rhs c ks (h(rr := r))"
        using Inr r by simp
      ultimately show ?thesis using Cons.IH[OF s1] by (simp only:)
    qed
  qed
qed

lemma pair_loop_sim:
  assumes "xr \<noteq> rr" "inj_view vr" "set (cells vx) \<inter> set (cells vr) = {}"
    and "sim_state vx vr xr rr s t"
  shows "rel_sum (=) (sim_state vx vr xr rr)
           (pair_loop_mem vx vr m i js s) (pair_loop xr rr m i js t)"
  using assms(4)
proof (induction js arbitrary: s t)
  case Nil
  then show ?case by simp
next
  case (Cons j js)
  from Cons.prems have c: "snd s = snd t" and sm: "sim vx vr xr rr (fst s) (fst t)"
    by (simp_all add: sim_state_def)
  have f: "rel_sum (=) (sim vx vr xr rr)
           (fill_col_mem vr (rhs_prod_mem vx i j) (snd t) [0..<m] (fst s))
           (fill_col xr rr (rhs_prod i j) (snd t) [0..<m] (fst t))"
    using assms(1-3) rhs_prod_sim sm by (rule fill_col_sim)
  show ?case
  proof (cases "fill_col xr rr (rhs_prod i j) (snd t) [0..<m] (fst t)")
    case (Inl e)
    with f show ?thesis
      by (cases "fill_col_mem vr (rhs_prod_mem vx i j) (snd t) [0..<m] (fst s)")
         (auto simp: c)
  next
    case (Inr h')
    with f obtain mem' where
      m: "fill_col_mem vr (rhs_prod_mem vx i j) (snd t) [0..<m] (fst s) = Inr mem'"
      and s': "sim vx vr xr rr mem' h'"
      by (cases "fill_col_mem vr (rhs_prod_mem vx i j) (snd t) [0..<m] (fst s)") auto
    have "sim_state vx vr xr rr (mem', snd t + 1) (h', snd t + 1)"
      using s' by (simp add: sim_state_def)
    from Cons.IH[OF this] m Inr show ?thesis by (simp add: c)
  qed
qed

lemma var_loop_sim:
  assumes "xr \<noteq> rr" "inj_view vr" "set (cells vx) \<inter> set (cells vr) = {}"
    and "sim_state vx vr xr rr s t"
  shows "rel_sum (=) (sim_state vx vr xr rr)
           (var_loop_mem vx vr m n is s) (var_loop xr rr m n is t)"
  using assms(4)
proof (induction "is" arbitrary: s t)
  case Nil
  then show ?case by simp
next
  case (Cons i "is")
  from Cons.prems have c: "snd s = snd t" and sm: "sim vx vr xr rr (fst s) (fst t)"
    by (simp_all add: sim_state_def)
  have f: "rel_sum (=) (sim vx vr xr rr)
           (fill_col_mem vr (rhs_copy_mem vx i) (snd t) [0..<m] (fst s))
           (fill_col xr rr (rhs_copy i) (snd t) [0..<m] (fst t))"
    using assms(1-3) rhs_copy_sim sm by (rule fill_col_sim)
  show ?case
  proof (cases "fill_col xr rr (rhs_copy i) (snd t) [0..<m] (fst t)")
    case (Inl e)
    with f show ?thesis
      by (cases "fill_col_mem vr (rhs_copy_mem vx i) (snd t) [0..<m] (fst s)")
         (auto simp: c)
  next
    case (Inr h1)
    with f obtain mem1 where
      m: "fill_col_mem vr (rhs_copy_mem vx i) (snd t) [0..<m] (fst s) = Inr mem1"
      and s1: "sim vx vr xr rr mem1 h1"
      by (cases "fill_col_mem vr (rhs_copy_mem vx i) (snd t) [0..<m] (fst s)") auto
    have "sim_state vx vr xr rr (mem1, snd t + 1) (h1, snd t + 1)"
      using s1 by (simp add: sim_state_def)
    from pair_loop_sim[OF assms(1-3) this, of m i "[i..<n]"]
    have p: "rel_sum (=) (sim_state vx vr xr rr)
           (pair_loop_mem vx vr m i [i..<n] (mem1, snd t + 1))
           (pair_loop xr rr m i [i..<n] (h1, snd t + 1))" .
    show ?thesis
    proof (cases "pair_loop xr rr m i [i..<n] (h1, snd t + 1)")
      case (Inl e)
      with p m Inr show ?thesis
        by (cases "pair_loop_mem vx vr m i [i..<n] (mem1, snd t + 1)") (auto simp: c)
    next
      case t2: (Inr t2)
      with p obtain s2 where
        p2: "pair_loop_mem vx vr m i [i..<n] (mem1, snd t + 1) = Inr s2"
        and ss: "sim_state vx vr xr rr s2 t2"
        by (cases "pair_loop_mem vx vr m i [i..<n] (mem1, snd t + 1)") auto
      from Cons.IH[OF ss] m Inr p2 t2 show ?thesis by (simp add: c)
    qed
  qed
qed

lemma vec_poly_sim:
  assumes "xr \<noteq> rr" "inj_view vr" "set (cells vx) \<inter> set (cells vr) = {}"
    and "represents mem vx (h xr)" "represents mem vr (h rr)" "wf_array (h rr)"
  shows "rel_sum (=) (\<lambda>mem' h'. represents mem' vx (h' xr) \<and> represents mem' vr (h' rr))
           (vec_poly_mem vx vr mem) (vec_poly xr rr h)"
proof -
  have "sim_state vx vr xr rr (mem, 0) (h, 0)"
    using assms(4-6) by (simp add: sim_state_def sim_def)
  from var_loop_sim[OF assms(1-3) this, of "nrows (h xr)" "ncols (h xr)" "[0..<ncols (h xr)]"]
  have r: "rel_sum (=) (sim_state vx vr xr rr)
             (vec_poly_mem_run vx vr mem) (vec_poly_run xr rr h)"
    using assms(4) by (simp add: vec_poly_mem_run_def vec_poly_run_def represents_def Let_def)
  show ?thesis
  proof (cases "vec_poly_run xr rr h")
    case (Inl e)
    with r show ?thesis
      by (cases "vec_poly_mem_run vx vr mem") (auto simp: vec_poly_mem_def vec_poly_def)
  next
    case (Inr t)
    with r show ?thesis
      by (cases "vec_poly_mem_run vx vr mem")
         (auto simp: vec_poly_mem_def vec_poly_def sim_state_def sim_def)
  qed
qed

text \<open>
  On the separate views of the concrete memory the run leaves in the destination what the
  allocation and the call of the store model leave for \<^verbatim>\<open>[[1,2],[3,4]]\<close>.
\<close>

lemma separate_views_example:
  "vec_poly_mem_tolist ex_x_view ex_res_view ex_memory ex_res_view =
     Inr [[1, 1, 2, 2, 4], [3, 9, 12, 4, 16]]"
  by code_simp

section \<open>Shared facts about the concrete store\<close>

lemma ex_heap_valid:
  "wf_array (ex_heap 1)" "nrows (ex_heap 1) = nrows (ex_heap 0)"
  "ncols (ex_heap 1) = n_feat (ncols (ex_heap 0))"
  by (simp_all add: ex_heap_def zeros_def wf_array_def ex_x_def n_feat_def)

text \<open>
  The fault of the model is live: with one column or one row too few, the run of the
  kernel on \<^verbatim>\<open>[[1,2],[3,4]]\<close> indexes outside the destination.
\<close>

lemma small_destination_faults:
  "vec_poly_on ex_x (zeros 2 4 ColMajor) = Inl OutOfBounds"
  "vec_poly_on ex_x (zeros 1 5 ColMajor) = Inl OutOfBounds"
  by code_simp+

section \<open>The claims\<close>

text \<open>
  C1. For an input of shape \<open>(m, n)\<close> and a destination of shape \<open>(m, n_feat)\<close>, the
  kernel returns, and the destination then holds the columns in the ordering: for \<open>i\<close>
  from \<open>0\<close> to \<open>n-1\<close>, first a copy of input column \<open>i\<close>, then for each \<open>j\<close> from \<open>i\<close>
  to \<open>n-1\<close> the elementwise product of input columns \<open>i\<close> and \<open>j\<close>. The ordering
  \<open>column_order n\<close> has \<open>n_feat\<close> entries and depends on \<open>n\<close> alone, so it is the same
  for every input of that shape. (The theorem needs neither \<open>m \<ge> 1\<close> nor \<open>n \<ge> 1\<close>.)
\<close>

theorem vec_poly_column_order:
  assumes "wf_array (h res)" "nrows (h res) = nrows (h x)"
    and "ncols (h res) = n_feat (ncols (h x))"
  shows "length (column_order (ncols (h x))) = n_feat (ncols (h x)) \<and>
         (\<exists>h'. vec_poly x res h = Inr h' \<and>
            (\<forall>k<nrows (h x). \<forall>c<n_feat (ncols (h x)).
               getitem (h' res) k c =
                 Inr (feature_val (h x) k (column_order (ncols (h x)) ! c))))"
proof -
  from vec_poly_main[of h res x] assms obtain h' where
    r: "vec_poly x res h = Inr h'"
    and g: "\<forall>k c. k < nrows (h res) \<longrightarrow> c < ncols (h res) \<longrightarrow>
                 getitem (h' res) k c =
                   (if k < nrows (h x) \<and> c < n_feat (ncols (h x))
                    then Inr (feature_val (h x) k (column_order (ncols (h x)) ! c))
                    else getitem (h res) k c)"
    by auto
  from g assms(2,3) have "\<forall>k<nrows (h x). \<forall>c<n_feat (ncols (h x)).
               getitem (h' res) k c =
                 Inr (feature_val (h x) k (column_order (ncols (h x)) ! c))"
    by simp
  with r show ?thesis by (simp add: length_column_order)
qed

text \<open>
  The theorem at \<^verbatim>\<open>[[1,2],[3,4]]\<close>: the ordering for \<open>n = 2\<close>, and row 1 of the
  destination after the call.
\<close>

theorem vec_poly_column_order_witness:
  "column_order 2 = [Linear 0, Product 0 0, Product 0 1, Linear 1, Product 1 1] \<and>
   (\<exists>h'. vec_poly 0 1 ex_heap = Inr h' \<and>
      getitem (h' 1) 1 0 = Inr 3 \<and> getitem (h' 1) 1 1 = Inr 9 \<and> getitem (h' 1) 1 2 = Inr 12 \<and>
      getitem (h' 1) 1 3 = Inr 4 \<and> getitem (h' 1) 1 4 = Inr 16)"
proof -
  have co: "column_order 2 = [Linear 0, Product 0 0, Product 0 1, Linear 1, Product 1 1]"
    by code_simp
  have n: "ncols (ex_heap 0) = 2" "nrows (ex_heap 0) = 2" "n_feat 2 = 5"
    by (simp_all add: ex_heap_def ex_x_def n_feat_def)
  from vec_poly_column_order[of ex_heap 1 0, OF ex_heap_valid] obtain h' where
    r: "vec_poly 0 1 ex_heap = Inr h'"
    and g: "\<And>k c. k < 2 \<Longrightarrow> c < 5 \<Longrightarrow>
               getitem (h' 1) k c = Inr (feature_val (ex_heap 0) k (column_order 2 ! c))"
    unfolding n by blast
  have v: "feature_val (ex_heap 0) 1 (Linear 0) = 3"
    "feature_val (ex_heap 0) 1 (Product 0 0) = 9"
    "feature_val (ex_heap 0) 1 (Product 0 1) = 12"
    "feature_val (ex_heap 0) 1 (Linear 1) = 4"
    "feature_val (ex_heap 0) 1 (Product 1 1) = 16"
    by (simp_all add: ex_heap_def ex_x_def at_def offset_def)
  show ?thesis
    using r g[of 1 0] g[of 1 1] g[of 1 2] g[of 1 3] g[of 1 4] v by (simp add: co)
qed

text \<open>
  C2, as stated, fails. For \<^verbatim>\<open>[[1,2],[3,4]]\<close> output column 1 is \<open>[1, 9]\<close>, the
  square of input column 0, and not input column 1, which is \<open>[2, 4]\<close>: the first \<open>n\<close>
  output columns are not the \<open>n\<close> input columns.
\<close>

theorem first_columns_not_copies:
  "expand_column ex_x 1 = Inr [1, 9] \<and> column ex_x 1 = [2, 4] \<and>
   expand_column ex_x 1 \<noteq> Inr (column ex_x 1)"
proof -
  have 1: "expand_column ex_x 1 = Inr [1, 9]" by code_simp
  have 2: "column ex_x 1 = [2, 4]" by code_simp
  from 1 2 show ?thesis by simp
qed

text \<open>
  C2, amended. For every \<open>i\<close> in \<open>0..n-1\<close>, input column \<open>i\<close> is copied unchanged (the
  value stored is the value read, no arithmetic) into output column
  \<open>first_col n i = i * (n + 1) - i * (i - 1) div 2\<close>, the first column of round \<open>i\<close>.
\<close>

theorem vec_poly_copies_column:
  assumes "wf_array (h res)" "nrows (h res) = nrows (h x)"
    and "ncols (h res) = n_feat (ncols (h x))" and "i < ncols (h x)"
  shows "first_col (ncols (h x)) i = i * (ncols (h x) + 1) - i * (i - 1) div 2 \<and>
         first_col (ncols (h x)) i < n_feat (ncols (h x)) \<and>
         (\<exists>h'. vec_poly x res h = Inr h' \<and>
            (\<forall>k<nrows (h x).
               getitem (h' res) k (first_col (ncols (h x)) i) = getitem (h x) k i))"
proof -
  let ?n = "ncols (h x)"
  have b: "first_col ?n i < n_feat ?n"
    using first_col_bound[of i ?n 0] assms(4) by (simp add: length_block)
  from vec_poly_main[of h res x] assms obtain h' where
    r: "vec_poly x res h = Inr h'"
    and g: "\<And>k c. k < nrows (h res) \<Longrightarrow> c < ncols (h res) \<Longrightarrow>
                 getitem (h' res) k c =
                   (if k < nrows (h x) \<and> c < n_feat ?n
                    then Inr (feature_val (h x) k (column_order ?n ! c))
                    else getitem (h res) k c)"
    by auto
  have "getitem (h' res) k (first_col ?n i) = getitem (h x) k i" if "k < nrows (h x)" for k
    using g[of k "first_col ?n i"] that b assms(2,3,4)
    by (simp add: column_order_linear getitem_at)
  with r b first_col_closed[of i ?n] assms(4) show ?thesis by simp
qed

text \<open>The theorem at \<^verbatim>\<open>[[1,2],[3,4]]\<close> and \<open>i = 1\<close>: input column 1 lands in column 3.\<close>

theorem vec_poly_copies_column_witness:
  "first_col 2 1 = 3 \<and>
   (\<exists>h'. vec_poly 0 1 ex_heap = Inr h' \<and>
      getitem (h' 1) 0 3 = Inr 2 \<and> getitem (h' 1) 1 3 = Inr 4)"
proof -
  have n: "ncols (ex_heap 0) = 2" "nrows (ex_heap 0) = 2"
    by (simp_all add: ex_heap_def ex_x_def)
  have f: "first_col 2 1 = 3" by code_simp
  have i: "1 < ncols (ex_heap 0)" by (simp add: n)
  from vec_poly_copies_column[of ex_heap 1 0 1, OF ex_heap_valid i] obtain h' where
    r: "vec_poly 0 1 ex_heap = Inr h'"
    and g: "\<And>k. k < 2 \<Longrightarrow> getitem (h' 1) k 3 = getitem (ex_heap 0) k 1"
    unfolding n f by blast
  have v: "getitem (ex_heap 0) 0 1 = Inr 2" "getitem (ex_heap 0) 1 1 = Inr 4"
    by (simp_all add: ex_heap_def ex_x_def getitem_def offset_def)
  show ?thesis using r g[of 0] g[of 1] v f by simp
qed

text \<open>
  C3, as stated, fails: for \<^verbatim>\<open>[[1,2],[3,4]]\<close> the result is not
  \<^verbatim>\<open>[[1,2,1,2,4],[3,4,9,12,16]]\<close>.
\<close>

theorem example_output_not_as_stated:
  "expand_list ex_x \<noteq> Inr [[1, 2, 1, 2, 4], [3, 4, 9, 12, 16]]"
  by code_simp

text \<open>
  C3, amended. For \<^verbatim>\<open>[[1,2],[3,4]]\<close> the allocation and the call produce
  \<^verbatim>\<open>[[1,1,2,2,4],[3,9,12,4,16]]\<close>, the columns in the order
  \<open>[x0, x0*x0, x0*x1, x1, x1*x1]\<close>, whether the input is passed row-major or first
  converted by \<^verbatim>\<open>np.asfortranarray\<close> as in the notebook.
\<close>

theorem example_output:
  "tolist ex_x = [[1, 2], [3, 4]] \<and>
   expand_list ex_x = Inr [[1, 1, 2, 2, 4], [3, 9, 12, 4, 16]] \<and>
   expand_list (asfortranarray ex_x) = Inr [[1, 1, 2, 2, 4], [3, 9, 12, 4, 16]] \<and>
   column_order 2 = [Linear 0, Product 0 0, Product 0 1, Linear 1, Product 1 1]"
  by code_simp

text \<open>
  C4. For every pair \<open>i \<le> j < n\<close>, the column the kernel writes for the pair,
  \<open>pair_col n i j\<close> (the counter at the start of round \<open>i\<close>, plus \<open>1 + (j - i)\<close>), lies
  inside the destination and holds in every row \<open>k\<close> the product \<open>a * b\<close> of the two
  values \<open>a = x[k,i]\<close> and \<open>b = x[k,j]\<close>: one multiplication of the element type, nothing
  accumulated.
\<close>

theorem vec_poly_pair_product:
  assumes "wf_array (h res)" "nrows (h res) = nrows (h x)"
    and "ncols (h res) = n_feat (ncols (h x))" and "i \<le> j" "j < ncols (h x)"
  shows "pair_col (ncols (h x)) i j < n_feat (ncols (h x)) \<and>
         (\<exists>h'. vec_poly x res h = Inr h' \<and>
            (\<forall>k<nrows (h x). \<exists>a b. getitem (h x) k i = Inr a \<and> getitem (h x) k j = Inr b \<and>
               getitem (h' res) k (pair_col (ncols (h x)) i j) = Inr (a * b)))"
proof -
  let ?n = "ncols (h x)"
  have i: "i < ?n" using assms(4,5) by simp
  have b: "pair_col ?n i j < n_feat ?n"
    using first_col_bound[of i ?n "1 + (j - i)"] assms(4,5) i
    by (simp add: length_block pair_col_def)
  from vec_poly_main[of h res x] assms obtain h' where
    r: "vec_poly x res h = Inr h'"
    and g: "\<And>k c. k < nrows (h res) \<Longrightarrow> c < ncols (h res) \<Longrightarrow>
                 getitem (h' res) k c =
                   (if k < nrows (h x) \<and> c < n_feat ?n
                    then Inr (feature_val (h x) k (column_order ?n ! c))
                    else getitem (h res) k c)"
    by auto
  have "getitem (h' res) k (pair_col ?n i j) = Inr (at (h x) k i * at (h x) k j)"
    if "k < nrows (h x)" for k
    using g[of k "pair_col ?n i j"] that b assms(2,3) column_order_product[OF assms(4,5)]
    by (simp add: pair_col_def)
  then have "\<exists>a b. getitem (h x) k i = Inr a \<and> getitem (h x) k j = Inr b \<and>
               getitem (h' res) k (pair_col ?n i j) = Inr (a * b)"
    if "k < nrows (h x)" for k
    using that i assms(5) by (simp add: getitem_at)
  with r b show ?thesis by blast
qed

text \<open>The theorem at \<^verbatim>\<open>[[1,2],[3,4]]\<close> and the pair \<open>(0, 1)\<close>, which is column 2.\<close>

theorem vec_poly_pair_product_witness:
  "pair_col 2 0 1 = 2 \<and>
   (\<exists>h'. vec_poly 0 1 ex_heap = Inr h' \<and>
      getitem (h' 1) 0 2 = Inr (1 * 2) \<and> getitem (h' 1) 1 2 = Inr (3 * 4))"
proof -
  have n: "ncols (ex_heap 0) = 2" "nrows (ex_heap 0) = 2"
    by (simp_all add: ex_heap_def ex_x_def)
  have f: "pair_col 2 0 1 = 2" by code_simp
  have i: "(0::nat) \<le> 1" "1 < ncols (ex_heap 0)" by (simp_all add: n)
  from vec_poly_pair_product[of ex_heap 1 0 0 1, OF ex_heap_valid i] obtain h' where
    r: "vec_poly 0 1 ex_heap = Inr h'"
    and g: "\<And>k. k < 2 \<Longrightarrow> \<exists>a b. getitem (ex_heap 0) k 0 = Inr a \<and>
               getitem (ex_heap 0) k 1 = Inr b \<and> getitem (h' 1) k 2 = Inr (a * b)"
    unfolding n f by blast
  have v: "getitem (ex_heap 0) 0 0 = Inr 1" "getitem (ex_heap 0) 0 1 = Inr 2"
    "getitem (ex_heap 0) 1 0 = Inr 3" "getitem (ex_heap 0) 1 1 = Inr 4"
    by (simp_all add: ex_heap_def ex_x_def getitem_def offset_def)
  show ?thesis using r g[of 0] g[of 1] v f by auto
qed

text \<open>
  C5. The allocation gives the destination the shape \<open>(m, n + n*(n+1)/2)\<close>, and the kernel
  keeps shape, storage order and buffer size. The kernel advances its column counter to
  exactly \<open>n + n*(n+1)/2\<close>. After the call every one of the \<open>m * (n + n*(n+1)/2)\<close>
  entries of the destination is the value the column ordering gives it, computed from \<open>x\<close>
  alone, and the whole destination does not depend on what it held before: two runs on the
  same input, from destinations of that shape with any prior contents, leave equal
  destinations. So no entry keeps its prior value.
\<close>

theorem vec_poly_overwrites_all:
  fixes h h2 :: "'a::{zero,times} heap"
  assumes "wf_array (h res)" "nrows (h res) = nrows (h x)"
    and "ncols (h res) = n_feat (ncols (h x))"
    and "wf_array (h2 res)" "same_frame (h res) (h2 res)" "h2 x = h x"
  shows "(\<exists>out. expand (h x) = Inr out \<and> wf_array out \<and> nrows out = nrows (h x) \<and>
            ncols out = ncols (h x) + ncols (h x) * (ncols (h x) + 1) div 2 \<and>
            (\<forall>k<nrows (h x). \<forall>c<ncols (h x) + ncols (h x) * (ncols (h x) + 1) div 2.
               getitem out k c =
                 Inr (feature_val (h x) k (column_order (ncols (h x)) ! c)))) \<and>
         (\<exists>h' h2'. vec_poly_run x res h =
                      Inr (h', ncols (h x) + ncols (h x) * (ncols (h x) + 1) div 2) \<and>
            vec_poly x res h2 = Inr h2' \<and> h2' res = h' res \<and>
            wf_array (h' res) \<and> layout (h' res) = layout (h res) \<and>
            nrows (h' res) = nrows (h x) \<and>
            ncols (h' res) = ncols (h x) + ncols (h x) * (ncols (h x) + 1) div 2 \<and>
            (\<forall>k<nrows (h x). \<forall>c<ncols (h x) + ncols (h x) * (ncols (h x) + 1) div 2.
               getitem (h' res) k c =
                 Inr (feature_val (h x) k (column_order (ncols (h x)) ! c))))"
proof -
  let ?n = "ncols (h x)"
  have nf: "?n + ?n * (?n + 1) div 2 = n_feat ?n" by (simp add: n_feat_def)
  from expand_main[of "h x"] have 1: "\<exists>out. expand (h x) = Inr out \<and> wf_array out \<and>
            nrows out = nrows (h x) \<and> ncols out = n_feat ?n \<and>
            (\<forall>k<nrows (h x). \<forall>c<n_feat ?n.
               getitem out k c = Inr (feature_val (h x) k (column_order ?n ! c)))"
    by blast
  from vec_poly_main[of h res x] assms(1-3) obtain h' where
    r: "vec_poly_run x res h = Inr (h', n_feat ?n)"
    and fr: "same_frame (h res) (h' res)" and w: "wf_array (h' res)"
    and g: "\<And>k c. k < nrows (h res) \<Longrightarrow> c < ncols (h res) \<Longrightarrow>
                 getitem (h' res) k c =
                   (if k < nrows (h x) \<and> c < n_feat ?n
                    then Inr (feature_val (h x) k (column_order ?n ! c))
                    else getitem (h res) k c)"
    by auto
  have s2: "nrows (h2 res) = nrows (h res)" "ncols (h2 res) = ncols (h res)"
    using assms(5) by (simp_all add: same_frame_def)
  from vec_poly_main[of h2 res x] assms s2 obtain h2' where
    r2: "vec_poly x res h2 = Inr h2'"
    and fr2: "same_frame (h2 res) (h2' res)" and w2: "wf_array (h2' res)"
    and g2: "\<And>k c. k < nrows (h2 res) \<Longrightarrow> c < ncols (h2 res) \<Longrightarrow>
                 getitem (h2' res) k c =
                   (if k < nrows (h2 x) \<and> c < n_feat (ncols (h2 x))
                    then Inr (feature_val (h2 x) k (column_order (ncols (h2 x)) ! c))
                    else getitem (h2 res) k c)"
    by auto
  have eq: "h2' res = h' res"
  proof (rule same_result_array[OF w2 w])
    show "same_frame (h2' res) (h' res)"
      using fr fr2 assms(5) by (simp add: same_frame_def)
    fix k j assume "k < nrows (h2' res)" "j < ncols (h2' res)"
    then have "k < nrows (h res)" "j < ncols (h res)"
      using fr2 s2 by (simp_all add: same_frame_def)
    then show "getitem (h2' res) k j = getitem (h' res) k j"
      using g[of k j] g2[of k j] s2 assms(2,3,6) by simp
  qed
  have sh: "nrows (h' res) = nrows (h x)" "ncols (h' res) = n_feat ?n"
    "layout (h' res) = layout (h res)"
    using fr assms(2,3) by (simp_all add: same_frame_def)
  have en: "\<forall>k<nrows (h x). \<forall>c<n_feat ?n.
               getitem (h' res) k c = Inr (feature_val (h x) k (column_order ?n ! c))"
    using g assms(2,3) by simp
  have "\<exists>h' h2'. vec_poly_run x res h = Inr (h', n_feat ?n) \<and>
            vec_poly x res h2 = Inr h2' \<and> h2' res = h' res \<and>
            wf_array (h' res) \<and> layout (h' res) = layout (h res) \<and>
            nrows (h' res) = nrows (h x) \<and> ncols (h' res) = n_feat ?n \<and>
            (\<forall>k<nrows (h x). \<forall>c<n_feat ?n.
               getitem (h' res) k c = Inr (feature_val (h x) k (column_order ?n ! c)))"
    using r r2 eq w sh en by blast
  with 1 show ?thesis unfolding nf by blast
qed

text \<open>
  The theorem at \<^verbatim>\<open>[[1,2],[3,4]]\<close>, for a zeroed destination and one filled with
  sevens: both end as \<^verbatim>\<open>[[1,1,2,2,4],[3,9,12,4,16]]\<close>.
\<close>

theorem vec_poly_overwrites_all_witness:
  "\<exists>h' h2'. vec_poly_run 0 1 ex_heap = Inr (h', 5) \<and>
      vec_poly 0 1 (ex_heap(1 := ex_dirty)) = Inr h2' \<and> h2' 1 = h' 1 \<and>
      wf_array (h' 1) \<and> nrows (h' 1) = 2 \<and> ncols (h' 1) = 5 \<and>
      tolist (h' 1) = [[1, 1, 2, 2, 4], [3, 9, 12, 4, 16]] \<and>
      tolist (h2' 1) = [[1, 1, 2, 2, 4], [3, 9, 12, 4, 16]] \<and>
      tolist ex_dirty = [[7, 7, 7, 7, 7], [7, 7, 7, 7, 7]]"
proof -
  have n: "ncols (ex_heap 0) = 2" "nrows (ex_heap 0) = 2"
    by (simp_all add: ex_heap_def ex_x_def)
  have a: "wf_array ((ex_heap(1 := ex_dirty)) 1)"
    "same_frame (ex_heap 1) ((ex_heap(1 := ex_dirty)) 1)"
    "(ex_heap(1 := ex_dirty)) 0 = ex_heap 0"
    by (simp_all add: ex_heap_def ex_dirty_def wf_array_def same_frame_def zeros_def)
  from vec_poly_overwrites_all[of ex_heap 1 0 "ex_heap(1 := ex_dirty)", OF ex_heap_valid a]
  obtain h' h2' where r: "vec_poly_run 0 1 ex_heap = Inr (h', 5)"
    and r2: "vec_poly 0 1 (ex_heap(1 := ex_dirty)) = Inr h2'" and e: "h2' 1 = h' 1"
    and w: "wf_array (h' 1)" and s: "nrows (h' 1) = 2" "ncols (h' 1) = 5"
    and g: "\<And>k c. k < 2 \<Longrightarrow> c < 5 \<Longrightarrow>
       getitem (h' 1) k c = Inr (feature_val (ex_heap 0) k (column_order 2 ! c))"
    unfolding n by (auto simp: n)
  have co: "column_order 2 = [Linear 0, Product 0 0, Product 0 1, Linear 1, Product 1 1]"
    by code_simp
  have v: "feature_val (ex_heap 0) 0 (Linear 0) = 1"
    "feature_val (ex_heap 0) 0 (Product 0 0) = 1"
    "feature_val (ex_heap 0) 0 (Product 0 1) = 2"
    "feature_val (ex_heap 0) 0 (Linear 1) = 2"
    "feature_val (ex_heap 0) 0 (Product 1 1) = 4"
    "feature_val (ex_heap 0) 1 (Linear 0) = 3"
    "feature_val (ex_heap 0) 1 (Product 0 0) = 9"
    "feature_val (ex_heap 0) 1 (Product 0 1) = 12"
    "feature_val (ex_heap 0) 1 (Linear 1) = 4"
    "feature_val (ex_heap 0) 1 (Product 1 1) = 16"
    by (simp_all add: ex_heap_def ex_x_def at_def offset_def)
  have at: "buf (h' 1) ! offset (h' 1) k c = feature_val (ex_heap 0) k (column_order 2 ! c)"
    if "k < 2" "c < 5" for k c
    using g[OF that] that s by (simp add: getitem_def)
  have row0: "map (\<lambda>c. buf (h' 1) ! offset (h' 1) 0 c) [0, 1, 2, 3, 4] = [1, 1, 2, 2, 4]"
    using at[of 0 0] at[of 0 1] at[of 0 2] at[of 0 3] at[of 0 4] v
    by (simp add: co)
  have row1: "map (\<lambda>c. buf (h' 1) ! offset (h' 1) 1 c) [0, 1, 2, 3, 4] = [3, 9, 12, 4, 16]"
    using at[of 1 0] at[of 1 1] at[of 1 2] at[of 1 3] at[of 1 4] v
    by (simp add: co)
  have up: "[0..<2] = [0, 1]" "[0..<5] = [0, 1, 2, 3, 4]" by (simp_all add: upt_rec)
  have t: "tolist (h' 1) = [[1, 1, 2, 2, 4], [3, 9, 12, 4, 16]]"
    unfolding tolist_def s up using row0 row1 by simp
  have d: "tolist ex_dirty = [[7, 7, 7, 7, 7], [7, 7, 7, 7, 7]]" by code_simp
  show ?thesis using r r2 e w s t d by auto
qed

text \<open>
  C6, as stated, fails. For an input with no rows, and for one with no columns, the
  allocation and the call return normally, with a destination of shape \<open>(0, 9)\<close> and
  \<open>(3, 0)\<close>: no error is raised.
\<close>

theorem empty_input_no_error:
  "expand ex_no_rows = Inr (zeros 0 9 ColMajor) \<and> expand ex_no_cols = Inr (zeros 3 0 ColMajor)"
  by code_simp

text \<open>
  C6, amended. For an input with \<open>m = 0\<close> or \<open>n = 0\<close> the kernel raises no error: it
  returns normally and writes nothing, so the store, the destination included, is as it
  was before the call.
\<close>

theorem vec_poly_degenerate:
  assumes "nrows (h x) = 0 \<or> ncols (h x) = 0"
  shows "vec_poly x res h = Inr h"
  using vec_poly_run_degenerate[of h x res] assms by (simp add: vec_poly_def)

text \<open>The theorem at an input with no rows and at an input with no columns.\<close>

theorem vec_poly_degenerate_witness:
  "vec_poly 0 1 (ex_heap(0 := ex_no_rows)) = Inr (ex_heap(0 := ex_no_rows)) \<and>
   vec_poly 0 1 (ex_heap(0 := ex_no_cols)) = Inr (ex_heap(0 := ex_no_cols))"
proof -
  have "nrows ((ex_heap(0 := ex_no_rows)) 0) = 0 \<or> ncols ((ex_heap(0 := ex_no_rows)) 0) = 0"
    by (simp add: ex_no_rows_def)
  moreover
  have "nrows ((ex_heap(0 := ex_no_cols)) 0) = 0 \<or> ncols ((ex_heap(0 := ex_no_cols)) 0) = 0"
    by (simp add: ex_no_cols_def)
  ultimately show ?thesis
    using vec_poly_degenerate[of "ex_heap(0 := ex_no_rows)" 0 1]
      vec_poly_degenerate[of "ex_heap(0 := ex_no_cols)" 0 1]
    by blast
qed

text \<open>
  C7, as stated, fails. Called on \<^verbatim>\<open>[[1,2],[3,4]]\<close> with a zeroed destination of
  shape \<open>(3, 6)\<close> instead of \<open>(2, 5)\<close>, the kernel raises no error and returns with the
  destination changed.
\<close>

theorem wrong_shape_no_error:
  "vec_poly_on ex_x (zeros 3 6 ColMajor) =
     Inr \<lparr>nrows = 3, ncols = 6, layout = ColMajor,
          buf = [1, 3, 0, 1, 9, 0, 2, 12, 0, 2, 4, 0, 4, 16, 0, 0, 0, 0]\<rparr> \<and>
   vec_poly_on ex_x (zeros 3 6 ColMajor) \<noteq> Inr (zeros 3 6 ColMajor)"
  by code_simp

text \<open>
  C7, amended. The kernel does not check the shape of the destination. Whenever the
  destination has at least \<open>m\<close> rows and at least \<open>n + n*(n+1)/2\<close> columns, the kernel
  returns normally; it has then written the entries \<open>[k, c]\<close> with \<open>k < m\<close> and
  \<open>c < n + n*(n+1)/2\<close>, in the ordering of C1, and every other entry of the destination
  is as it was.
\<close>

theorem vec_poly_no_shape_check:
  assumes "wf_array (h res)" "nrows (h x) \<le> nrows (h res)"
    and "n_feat (ncols (h x)) \<le> ncols (h res)"
  shows "\<exists>h'. vec_poly x res h = Inr h' \<and> same_frame (h res) (h' res) \<and>
           (\<forall>k<nrows (h res). \<forall>c<ncols (h res).
              getitem (h' res) k c =
                (if k < nrows (h x) \<and> c < n_feat (ncols (h x))
                 then Inr (feature_val (h x) k (column_order (ncols (h x)) ! c))
                 else getitem (h res) k c))"
  using vec_poly_main[OF assms] by blast

text \<open>The theorem at \<^verbatim>\<open>[[1,2],[3,4]]\<close> with the destination of shape \<open>(3, 6)\<close>.\<close>

theorem vec_poly_no_shape_check_witness:
  "\<exists>h'. vec_poly 0 1 ex_heap_wide = Inr h' \<and> nrows (h' 1) = 3 \<and> ncols (h' 1) = 6 \<and>
      getitem (h' 1) 1 4 = Inr 16 \<and> getitem (h' 1) 1 5 = Inr 0 \<and> getitem (h' 1) 2 0 = Inr 0"
proof -
  have n: "ncols (ex_heap_wide 0) = 2" "nrows (ex_heap_wide 0) = 2" "n_feat 2 = 5"
    "nrows (ex_heap_wide 1) = 3" "ncols (ex_heap_wide 1) = 6"
    by (simp_all add: ex_heap_wide_def ex_x_def n_feat_def zeros_simps)
  have a: "wf_array (ex_heap_wide 1)" "nrows (ex_heap_wide 0) \<le> nrows (ex_heap_wide 1)"
    "n_feat (ncols (ex_heap_wide 0)) \<le> ncols (ex_heap_wide 1)"
    by (simp_all add: ex_heap_wide_def ex_x_def n_feat_def zeros_simps)
  from vec_poly_no_shape_check[of ex_heap_wide 1 0, OF a] obtain h' where
    r: "vec_poly 0 1 ex_heap_wide = Inr h'" and fr: "same_frame (ex_heap_wide 1) (h' 1)"
    and g: "\<And>k c. k < 3 \<Longrightarrow> c < 6 \<Longrightarrow> getitem (h' 1) k c =
                (if k < 2 \<and> c < 5
                 then Inr (feature_val (ex_heap_wide 0) k (column_order 2 ! c))
                 else getitem (ex_heap_wide 1) k c)"
    unfolding n by blast
  have co: "column_order 2 ! 4 = Product 1 1" by code_simp
  have v: "feature_val (ex_heap_wide 0) 1 (Product 1 1) = 16"
    by (simp add: ex_heap_wide_def ex_x_def at_def offset_def)
  have z: "getitem (ex_heap_wide 1) 1 5 = Inr 0" "getitem (ex_heap_wide 1) 2 0 = Inr 0"
    by (simp_all add: ex_heap_wide_def zeros_def getitem_def offset_def)
  show ?thesis
    using r fr g[of 1 4] g[of 1 5] g[of 2 0] co v z n by (simp add: same_frame_def)
qed

text \<open>
  C8. Two inputs of the same shape that hold the same element at every index, whatever
  their storage orders, give the same destination: the same array from the same prior
  destination, and the same result of the allocation and the call together.
\<close>

theorem vec_poly_layout_independent:
  fixes x1 x2 :: "'a::{zero,times} ndarray"
  assumes "nrows x2 = nrows x1" "ncols x2 = ncols x1"
    and "\<forall>k<nrows x1. \<forall>j<ncols x1. getitem x2 k j = getitem x1 k j"
    and "wf_array r" "nrows x1 \<le> nrows r" "n_feat (ncols x1) \<le> ncols r"
  shows "(\<exists>out. vec_poly_on x1 r = Inr out \<and> vec_poly_on x2 r = Inr out) \<and>
         expand x2 = expand x1"
proof -
  have same: "\<exists>out. vec_poly_on x1 r' = Inr out \<and> vec_poly_on x2 r' = Inr out"
    if r': "wf_array r'" "nrows x1 \<le> nrows r'" "n_feat (ncols x1) \<le> ncols r'"
    for r' :: "'a ndarray"
  proof -
    from vec_poly_on_main[OF r'] obtain o1 where
      1: "vec_poly_on x1 r' = Inr o1" and f1: "same_frame r' o1" and w1: "wf_array o1"
      and g1: "\<And>k c. k < nrows r' \<Longrightarrow> c < ncols r' \<Longrightarrow> getitem o1 k c =
                 (if k < nrows x1 \<and> c < n_feat (ncols x1)
                  then Inr (feature_val x1 k (column_order (ncols x1) ! c))
                  else getitem r' k c)"
      by blast
    from vec_poly_on_main[of r' x2] r' assms(1,2) obtain o2 where
      2: "vec_poly_on x2 r' = Inr o2" and f2: "same_frame r' o2" and w2: "wf_array o2"
      and g2: "\<And>k c. k < nrows r' \<Longrightarrow> c < ncols r' \<Longrightarrow> getitem o2 k c =
                 (if k < nrows x2 \<and> c < n_feat (ncols x2)
                  then Inr (feature_val x2 k (column_order (ncols x2) ! c))
                  else getitem r' k c)"
      by auto
    have "o2 = o1"
    proof (rule same_result_array[OF w2 w1])
      show "same_frame o2 o1" using f1 f2 by (simp add: same_frame_def)
      fix k c assume "k < nrows o2" "c < ncols o2"
      then have kc: "k < nrows r'" "c < ncols r'" using f2 by (simp_all add: same_frame_def)
      show "getitem o2 k c = getitem o1 k c"
        using g1[OF kc] g2[OF kc] assms(1,2) same_values_features[OF assms(1-3), of k c]
        by simp
    qed
    with 1 2 show ?thesis by simp
  qed
  let ?z = "zeros (nrows x1) (n_feat (ncols x1)) ColMajor :: 'a ndarray"
  have "\<exists>out. vec_poly_on x1 ?z = Inr out \<and> vec_poly_on x2 ?z = Inr out"
    by (rule same) (simp_all add: zeros_simps)
  then have "expand x2 = expand x1" using assms(1,2) by (auto simp: expand_def)
  with same[OF assms(4-6)] show ?thesis by simp
qed

text \<open>
  The theorem at \<^verbatim>\<open>[[1,2],[3,4]]\<close> stored row-major and at what
  \<^verbatim>\<open>np.asfortranarray\<close> makes of it, stored column-major.
\<close>

theorem vec_poly_layout_independent_witness:
  "asfortranarray ex_x = ex_x_colmajor \<and> layout ex_x = RowMajor \<and>
   layout ex_x_colmajor = ColMajor \<and>
   (\<exists>out. vec_poly_on ex_x (zeros 2 5 ColMajor) = Inr out \<and>
           vec_poly_on ex_x_colmajor (zeros 2 5 ColMajor) = Inr out) \<and>
   expand ex_x_colmajor = expand ex_x"
proof -
  have e: "asfortranarray ex_x = ex_x_colmajor" by code_simp
  have l: "layout ex_x = RowMajor" "layout ex_x_colmajor = ColMajor"
    by (simp_all add: ex_x_def ex_x_colmajor_def)
  have a: "nrows ex_x_colmajor = nrows ex_x" "ncols ex_x_colmajor = ncols ex_x"
    "\<forall>k<nrows ex_x. \<forall>j<ncols ex_x. getitem ex_x_colmajor k j = getitem ex_x k j"
    using asfortranarray_same(1,2,5)[of ex_x] by (simp_all add: e)
  have b: "wf_array (zeros 2 5 ColMajor :: int ndarray)"
    "nrows ex_x \<le> nrows (zeros 2 5 ColMajor :: int ndarray)"
    "n_feat (ncols ex_x) \<le> ncols (zeros 2 5 ColMajor :: int ndarray)"
    by (simp_all add: zeros_simps ex_x_def n_feat_def)
  from vec_poly_layout_independent[OF a b] e l show ?thesis by simp
qed

text \<open>
  C9, as stated, fails. Take \<^verbatim>\<open>big = [[1,2,0,0,0],[3,4,0,0,0]]\<close>, \<open>res = big\<close> and
  \<open>x = big[:, :2]\<close>: the shapes are \<open>(2, 2)\<close> and \<open>(2, 5)\<close>, as the kernel expects. The
  first product column, \<open>res[:,1] = x0*x0\<close>, is written into the cells of \<open>x[:,1]\<close>: after
  the call \<open>x\<close> is \<^verbatim>\<open>[[1,1],[3,9]]\<close>, not \<^verbatim>\<open>[[1,2],[3,4]]\<close>.
\<close>

theorem input_view_overwritten:
  "view_tolist ex_big_memory ex_big_left = [[1, 2], [3, 4]] \<and>
   vec_poly_mem_tolist ex_big_left ex_big ex_big_memory ex_big_left = Inr [[1, 1], [3, 9]] \<and>
   vec_poly_mem_tolist ex_big_left ex_big ex_big_memory ex_big =
     Inr [[1, 1, 1, 1, 1], [3, 9, 27, 9, 81]]"
  by code_simp

text \<open>
  C9, amended. The kernel writes only memory cells of the destination: a call whose
  destination has at least \<open>m\<close> rows and at least \<open>n + n*(n+1)/2\<close> columns returns, and
  every memory cell that is not a cell of \<open>res\<close> holds its prior value. So whenever \<open>x\<close>
  shares no cell with \<open>res\<close>, every entry of \<open>x\<close> after the call equals its value before
  the call.
\<close>

theorem vec_poly_mem_frame:
  assumes "vrows x \<le> vrows res" "n_feat (vcols x) \<le> vcols res"
  shows "\<exists>mem'. vec_poly_mem x res mem = Inr mem' \<and>
            (\<forall>p. p \<notin> set (cells res) \<longrightarrow> mem' p = mem p) \<and>
            (set (cells x) \<inter> set (cells res) = {} \<longrightarrow>
               (\<forall>k j. load mem' x k j = load mem x k j))"
proof -
  from vec_poly_mem_main[OF assms, of mem] obtain mem' where
    r: "vec_poly_mem x res mem = Inr mem'"
    and f: "\<forall>p. p \<notin> set (cells res) \<longrightarrow> mem' p = mem p" by blast
  have "load mem' x k j = load mem x k j"
    if d: "set (cells x) \<inter> set (cells res) = {}" for k j
  proof (cases "k < vrows x \<and> j < vcols x")
    case True
    then have "cell x k j \<in> set (cells x)" by (simp add: cell_in_cells)
    with d have "cell x k j \<notin> set (cells res)" by auto
    with f show ?thesis by (simp add: load_def)
  next
    case False
    then show ?thesis by (auto simp: load_def)
  qed
  with r f show ?thesis by blast
qed

text \<open>
  The theorem at the separate views of the concrete memory: \<open>x\<close> reads
  \<^verbatim>\<open>[[1,2],[3,4]]\<close> after the call, and cell 14, beyond the destination, is untouched.
\<close>

theorem vec_poly_mem_frame_witness:
  "\<exists>mem'. vec_poly_mem ex_x_view ex_res_view ex_memory = Inr mem' \<and>
      view_tolist mem' ex_x_view = [[1, 2], [3, 4]] \<and> load mem' ex_x_view 1 1 = Inr 4 \<and>
      mem' 14 = 0"
proof -
  have cx: "cells ex_x_view = [0, 1, 2, 3]" by code_simp
  have cr: "cells ex_res_view = [4, 6, 8, 10, 12, 5, 7, 9, 11, 13]" by code_simp
  have a: "vrows ex_x_view \<le> vrows ex_res_view" "n_feat (vcols ex_x_view) \<le> vcols ex_res_view"
    by (simp_all add: ex_x_view_def ex_res_view_def n_feat_def)
  have d: "set (cells ex_x_view) \<inter> set (cells ex_res_view) = {}"
    unfolding cx cr by simp
  from vec_poly_mem_frame[OF a, of ex_memory] d obtain mem' where
    r: "vec_poly_mem ex_x_view ex_res_view ex_memory = Inr mem'"
    and f: "\<And>p. p \<notin> set (cells ex_res_view) \<Longrightarrow> mem' p = ex_memory p"
    and l: "\<And>k j. load mem' ex_x_view k j = load ex_memory ex_x_view k j"
    by blast
  have m: "mem' 0 = 1" "mem' 1 = 2" "mem' 2 = 3" "mem' 3 = 4" "mem' 14 = 0"
    using f[of 0] f[of 1] f[of 2] f[of 3] f[of 14] by (simp_all add: cr ex_memory_def)
  have "view_tolist mem' ex_x_view = [[1, 2], [3, 4]]"
    using m by (simp add: view_tolist_def ex_x_view_def cell_def upt_rec)
  moreover have "load mem' ex_x_view 1 1 = Inr 4"
    using l[of 1 1] by (simp add: load_def ex_x_view_def ex_memory_def cell_def)
  ultimately show ?thesis using r m by blast
qed

text \<open>
  C10. When the destination has the shape \<open>(m, n + n*(n+1)/2)\<close> for an input of shape
  \<open>(m, n)\<close>, no access of the run is out of bounds: every read \<open>x[k,i]\<close>, \<open>x[k,j]\<close> has
  \<open>k < m\<close> and \<open>i, j < n\<close>, every write \<open>res[k,feat_idx]\<close> has \<open>k < m\<close> and
  \<open>feat_idx < n + n*(n+1)/2\<close>, and the counter ends at exactly \<open>n + n*(n+1)/2\<close>.
\<close>

theorem vec_poly_in_bounds:
  assumes "wf_array (h res)" "nrows (h res) = nrows (h x)"
    and "ncols (h res) = n_feat (ncols (h x))"
  shows "vec_poly x res h \<noteq> Inl OutOfBounds \<and>
         (\<exists>h'. vec_poly_run x res h = Inr (h', n_feat (ncols (h x))))"
proof -
  from vec_poly_main[of h res x] assms obtain h' where
    "vec_poly x res h = Inr h'" "vec_poly_run x res h = Inr (h', n_feat (ncols (h x)))"
    by auto
  then show ?thesis by auto
qed

text \<open>The theorem at the concrete store.\<close>

theorem vec_poly_in_bounds_witness:
  "vec_poly 0 1 ex_heap \<noteq> Inl OutOfBounds \<and> (\<exists>h'. vec_poly_run 0 1 ex_heap = Inr (h', 5))"
proof -
  have n: "n_feat (ncols (ex_heap 0)) = 5" by (simp add: ex_heap_def ex_x_def n_feat_def)
  show ?thesis using vec_poly_in_bounds[of ex_heap 1 0, OF ex_heap_valid] by (simp add: n)
qed

end
